theory Spec2Isabelle
  imports Main "HOL-Library.Word"
begin

section \<open>The find command of restic: data model\<close>

text \<open>
  The theory embeds \<^verbatim>\<open>src/cmds/restic/cmd_find.go\<close>. A tree identifier
  (\<^verbatim>\<open>restic.ID\<close>, a content hash) is an opaque number. A \<^verbatim>\<open>time.Time\<close> is
  the instant it denotes, counted from the zero time, which is all that
  \<^verbatim>\<open>IsZero\<close>, \<^verbatim>\<open>Before\<close> and \<^verbatim>\<open>After\<close> look at. A \<^verbatim>\<open>*restic.Snapshot\<close> is an
  address: the output sink compares snapshots by pointer.
\<close>

type_synonym ID = nat
type_synonym time = int
type_synonym snptr = nat

definition IsZero :: "time \<Rightarrow> bool" where
  "IsZero t = (t = 0)"

definition Before :: "time \<Rightarrow> time \<Rightarrow> bool" where
  "Before t u = (t < u)"

definition After :: "time \<Rightarrow> time \<Rightarrow> bool" where
  "After t u = (u < t)"

text \<open>
  Errors are values. \<open>Fatal\<close> and \<open>Fatalf\<close> are the two errors the command builds
  itself, \<open>ErrBadPattern\<close> is the one \<^verbatim>\<open>filepath.Match\<close> returns, \<open>ExtError\<close>
  stands for the errors of the repository and of the encoders. A Go panic (a nil
  pointer dereferenced) unwinds through every caller like an error that nobody
  handles, so it is a value of the same type.
\<close>

datatype error =
    Fatal string
  | Fatalf string string
  | ErrBadPattern
  | ExtError string
  | Panic string

text \<open>The fields of \<^verbatim>\<open>restic.Node\<close>, \<^verbatim>\<open>restic.Tree\<close> and \<^verbatim>\<open>restic.Snapshot\<close> that the command reads.\<close>

record Node =
  Name :: string
  Type :: string
  Mode :: "32 word"
  ModTime :: time
  Subtree :: "ID option"

record Tree =
  Nodes :: "Node list"

record Snapshot =
  ID :: ID
  Tree :: "ID option"

record FindOptions =
  Oldest :: string
  Newest :: string
  Snapshots :: "string list"
  CaseInsensitive :: bool
  ListLong :: bool
  Host :: string
  Paths :: "string list"
  Tags :: "string list"

record GlobalOptions =
  NoLock :: bool
  JSON :: bool

record findPattern =
  oldest :: time
  newest :: time
  pattern :: string
  ignoreCase :: bool

record statefulOutput =
  ListLong :: bool
  JSON :: bool
  inuse :: bool
  newsn :: "snptr option"
  oldsn :: "snptr option"
  hits :: "64 word"

record Finder =
  pat :: findPattern
  out :: statefulOutput
  notfound :: "ID set"

subsection \<open>The collaborators and the trace of what the command does to them\<close>

text \<open>The anonymous struct that \<^verbatim>\<open>PrintJSON\<close> hands to \<^verbatim>\<open>json.Marshal\<close>.\<close>

record findNodeJSON =
  Path :: string
  Permissions :: string
  findNode :: Node

text \<open>
  The arguments of a \<^verbatim>\<open>Printf\<close>-style call are kept beside the format string, as
  the call has them; the rendering of \<^verbatim>\<open>%d\<close>, \<^verbatim>\<open>%q\<close>, \<^verbatim>\<open>%s\<close> and \<^verbatim>\<open>%v\<close> belongs to
  \<^verbatim>\<open>fmt\<close>.
\<close>

datatype arg = AInt "64 word" | AID ID | AErr error

text \<open>
  The effects of the command are its calls to the collaborators, in program order:
  a tree loaded from the repository, a record handed to one of the two renderers,
  and a write to the result stream (\<open>Printf\<close>), to the verbose stream (\<open>Verbosef\<close>)
  or to the warning stream (\<open>Warnf\<close>). The calls to \<^verbatim>\<open>debug.Log\<close> are left out.
\<close>

datatype event =
    LoadTreeCall ID
  | MarshalCall findNodeJSON
  | FormatNodeCall string Node bool
  | Printf string "arg list"
  | Verbosef string "arg list"
  | Warnf string "arg list"

text \<open>
  Everything the file calls and does not define: the repository, the snapshot
  source, \<^verbatim>\<open>formatNode\<close> (of another file of the command), and the functions of the Go
  standard library (\<^verbatim>\<open>filepath.Match\<close>, \<^verbatim>\<open>filepath.Join\<close>, \<^verbatim>\<open>filepath.Separator\<close>,
  \<^verbatim>\<open>strings.ToLower\<close>, \<^verbatim>\<open>os.FileMode.String\<close>, \<^verbatim>\<open>json.Marshal\<close>,
  \<^verbatim>\<open>time.ParseInLocation\<close> at \<^verbatim>\<open>time.Local\<close>). \<open>deref\<close> is the heap of snapshots,
  \<open>globalOptions\<close> the global variable of that name.
\<close>

record env =
  LoadTree :: "ID \<Rightarrow> error + Tree"
  Match :: "string \<Rightarrow> string \<Rightarrow> error + bool"
  Join :: "string \<Rightarrow> string \<Rightarrow> string"
  Separator :: char
  ToLower :: "string \<Rightarrow> string"
  ModeString :: "32 word \<Rightarrow> string"
  Marshal :: "findNodeJSON \<Rightarrow> error + string"
  formatNode :: "string \<Rightarrow> Node \<Rightarrow> bool \<Rightarrow> string"
  ParseInLocation :: "string \<Rightarrow> string \<Rightarrow> error + time"
  deref :: "snptr \<Rightarrow> Snapshot"
  globalOptions :: GlobalOptions
  OpenRepository :: "error option"
  lockRepo :: "error option"
  LoadIndex :: "error option"
  FindFilteredSnapshots :: "string \<Rightarrow> string list \<Rightarrow> string list \<Rightarrow> string list \<Rightarrow> snptr list"

section \<open>parseTime\<close>

definition timeFormats :: "string list" where
  "timeFormats =
    [''2006-01-02'',
     ''2006-01-02 15:04'',
     ''2006-01-02 15:04:05'',
     ''2006-01-02 15:04:05 -0700'',
     ''2006-01-02 15:04:05 MST'',
     ''02.01.2006'',
     ''02.01.2006 15:04'',
     ''02.01.2006 15:04:05'',
     ''02.01.2006 15:04:05 -0700'',
     ''02.01.2006 15:04:05 MST'',
     ''Mon Jan 2 15:04:05 -0700 MST 2006'']"

fun parseTime_loop :: "env \<Rightarrow> string list \<Rightarrow> string \<Rightarrow> error + time" where
  "parseTime_loop env [] str = Inl (Fatalf ''unable to parse time: %q'' str)"
| "parseTime_loop env (fmt # fmts) str =
     (case ParseInLocation env fmt str of
        Inr t \<Rightarrow> Inr t
      | Inl err \<Rightarrow> parseTime_loop env fmts str)"

definition parseTime :: "env \<Rightarrow> string \<Rightarrow> error + time" where
  "parseTime env str = parseTime_loop env timeFormats str"

section \<open>The output sink\<close>

text \<open>The format strings of the structured mode that contain a double quote.\<close>

definition dq :: string where
  "dq = [CHR 0x22]"

definition fmt_group_end :: string where
  "fmt_group_end = ''],'' @ dq @ ''hits'' @ dq @ '':%d,'' @ dq @ ''snapshot'' @ dq @ '':%q}''"

definition fmt_group_begin :: string where
  "fmt_group_begin = ''{'' @ dq @ ''matches'' @ dq @ '':[''"

definition PrintJSON ::
  "env \<Rightarrow> string \<Rightarrow> Node \<Rightarrow> statefulOutput \<times> event list \<Rightarrow> statefulOutput \<times> event list" where
  "PrintJSON env prefix node st =
    (case st of (s, tr) \<Rightarrow>
      (let v = \<lparr>Path = Join env prefix (Name node),
                Permissions = ModeString env (Mode node),
                findNode = node\<rparr>;
           tr = tr @ [MarshalCall v]
       in (case Marshal env v of
             Inl err \<Rightarrow> (s, tr @ [Warnf ''Marshall failed: %v\<newline>'' [AErr err]])
           | Inr b \<Rightarrow>
              (let (s, tr) =
                     (if \<not> inuse s then (s\<lparr>inuse := True\<rparr>, tr @ [Printf ''['' []])
                      else (s, tr));
                   (s, tr) =
                     (if newsn s \<noteq> oldsn s then
                        (let tr = (case oldsn s of
                                     Some p \<Rightarrow>
                                       tr @ [Printf (fmt_group_end @ '','')
                                               [AInt (hits s), AID (ID (deref env p))]]
                                   | None \<Rightarrow> tr);
                             tr = tr @ [Printf fmt_group_begin []]
                         in (s\<lparr>oldsn := newsn s, hits := 0\<rparr>, tr))
                      else (s, tr));
                   tr = (if 0 < sint (hits s) then tr @ [Printf '','' []] else tr)
               in (s\<lparr>hits := hits s + 1\<rparr>, tr @ [Printf b []])))))"

text \<open>
  \<^verbatim>\<open>PrintNormal\<close> calls \<^verbatim>\<open>s.oldsn.ID()\<close> right after \<^verbatim>\<open>s.oldsn = s.newsn\<close>, with no
  nil check: on a nil \<^verbatim>\<open>newsn\<close> that is a panic.
\<close>

definition PrintNormal ::
  "env \<Rightarrow> string \<Rightarrow> Node \<Rightarrow> statefulOutput \<times> event list
     \<Rightarrow> error option \<times> statefulOutput \<times> event list" where
  "PrintNormal env prefix node st =
    (case st of (s, tr) \<Rightarrow>
      (let line = (\<lambda>(s, tr).
             (None, s, tr @ [FormatNodeCall prefix node (ListLong s),
                             Printf (formatNode env prefix node (ListLong s) @ ''\<newline>'') []]))
       in if newsn s \<noteq> oldsn s then
            (let tr = (if oldsn s \<noteq> None then tr @ [Verbosef ''\<newline>'' []] else tr);
                 s = s\<lparr>oldsn := newsn s\<rparr>
             in (case oldsn s of
                   None \<Rightarrow> (Some (Panic ''nil pointer dereference''), s, tr)
                 | Some p \<Rightarrow>
                     line (s, tr @ [Verbosef ''Found matching entries in snapshot %s\<newline>''
                                      [AID (ID (deref env p))]])))
          else line (s, tr)))"

definition Print ::
  "env \<Rightarrow> string \<Rightarrow> Node \<Rightarrow> statefulOutput \<times> event list
     \<Rightarrow> error option \<times> statefulOutput \<times> event list" where
  "Print env prefix node st =
    (if JSON (fst st) then (case PrintJSON env prefix node st of (s, tr) \<Rightarrow> (None, s, tr))
     else PrintNormal env prefix node st)"

definition Finish :: "env \<Rightarrow> statefulOutput \<times> event list \<Rightarrow> statefulOutput \<times> event list" where
  "Finish env st =
    (case st of (s, tr) \<Rightarrow>
      if JSON s then
        (let tr = (case oldsn s of
                     Some p \<Rightarrow> tr @ [Printf fmt_group_end [AInt (hits s), AID (ID (deref env p))]]
                   | None \<Rightarrow> tr);
             tr = (if inuse s then tr @ [Printf '']\<newline>'' []]
                   else tr @ [Printf ''[]\<newline>'' []])
         in (s, tr))
      else (s, tr))"

section \<open>The search\<close>

text \<open>
  Lines 199 to 207 of \<^verbatim>\<open>findInTree\<close>: the name of the entry, folded when the
  pattern ignores case, is matched against the pattern.
\<close>

definition matchName :: "env \<Rightarrow> findPattern \<Rightarrow> Node \<Rightarrow> error + bool" where
  "matchName env p node =
    (let name = Name node;
         name = (if ignoreCase p then ToLower env name else name)
     in Match env (pattern p) name)"

text \<open>
  Lines 210 to 218: the two guards that leave the iteration with \<^verbatim>\<open>continue\<close>
  for an entry whose name has matched.
\<close>

definition timeRejected :: "findPattern \<Rightarrow> Node \<Rightarrow> bool" where
  "timeRejected p node =
    (if \<not> IsZero (oldest p) \<and> Before (ModTime node) (oldest p) then True
     else if \<not> IsZero (newest p) \<and> After (ModTime node) (newest p) then True
     else False)"

text \<open>
  The loop over \<^verbatim>\<open>tree.Nodes\<close>, with the local \<^verbatim>\<open>found\<close> and the finder passed along.
  \<open>rec\<close> is the recursive call of \<^verbatim>\<open>findInTree\<close>. The result is the error returned
  (if any), the final \<^verbatim>\<open>found\<close>, and the state; \<open>None\<close> means that the recursion
  went deeper than the fuel allows.
\<close>

type_synonym fstate = "Finder \<times> event list"

fun findInTree_loop ::
  "(ID \<Rightarrow> string \<Rightarrow> fstate \<Rightarrow> (error option \<times> fstate) option) \<Rightarrow> env \<Rightarrow> string \<Rightarrow> Node list
     \<Rightarrow> bool \<Rightarrow> fstate \<Rightarrow> (error option \<times> bool \<times> fstate) option" where
  "findInTree_loop rec env prefix [] found st = Some (None, found, st)"
| "findInTree_loop rec env prefix (node # nodes) found st =
    (case st of (f, tr) \<Rightarrow>
      (case matchName env (pat f) node of
         Inl err \<Rightarrow> Some (Some err, found, st)
       | Inr m \<Rightarrow>
          if m \<and> timeRejected (pat f) node then findInTree_loop rec env prefix nodes found st
          else
            (case (if m then (case Print env prefix node (out f, tr) of
                                (perr, s, tr') \<Rightarrow> (perr, True, (f\<lparr>out := s\<rparr>, tr')))
                   else (None, found, st)) of
               (Some perr, found, st) \<Rightarrow> Some (Some perr, found, st)
             | (None, found, st) \<Rightarrow>
                if Type node = ''dir'' then
                  (case Subtree node of
                     None \<Rightarrow> Some (Some (Panic ''nil pointer dereference''), found, st)
                   | Some sub \<Rightarrow>
                      (case rec sub (Join env prefix (Name node)) st of
                         None \<Rightarrow> None
                       | Some (Some err, st) \<Rightarrow> Some (Some err, found, st)
                       | Some (None, st) \<Rightarrow> findInTree_loop rec env prefix nodes found st))
                else findInTree_loop rec env prefix nodes found st)))"

text \<open>
  \<^verbatim>\<open>findInTree\<close>. The first argument bounds the depth of the recursion: the trees of
  a repository are content-addressed, so no tree is below itself, but a \<open>LoadTree\<close>
  that is an arbitrary function can describe a cycle.
\<close>

fun findInTree :: "nat \<Rightarrow> env \<Rightarrow> ID \<Rightarrow> string \<Rightarrow> fstate \<Rightarrow> (error option \<times> fstate) option" where
  "findInTree 0 env treeID prefix st = None"
| "findInTree (Suc fuel) env treeID prefix st =
    (case st of (f, tr) \<Rightarrow>
      if treeID \<in> notfound f then Some (None, st)
      else
        (case LoadTree env treeID of
           Inl err \<Rightarrow> Some (Some err, (f, tr @ [LoadTreeCall treeID]))
         | Inr tree \<Rightarrow>
            (case findInTree_loop (\<lambda>t p s. findInTree fuel env t p s) env prefix (Nodes tree) False
                    (f, tr @ [LoadTreeCall treeID]) of
               None \<Rightarrow> None
             | Some (Some err, found, st) \<Rightarrow> Some (Some err, st)
             | Some (None, found, (f, tr)) \<Rightarrow>
                 Some (None, (if \<not> found then f\<lparr>notfound := insert treeID (notfound f)\<rparr> else f, tr)))))"

definition findInSnapshot :: "nat \<Rightarrow> env \<Rightarrow> snptr \<Rightarrow> fstate \<Rightarrow> (error option \<times> fstate) option" where
  "findInSnapshot fuel env sn st =
    (case st of (f, tr) \<Rightarrow>
      (let f = f\<lparr>out := (out f)\<lparr>newsn := Some sn\<rparr>\<rparr>
       in (case Tree (deref env sn) of
             None \<Rightarrow> Some (Some (Panic ''nil pointer dereference''), (f, tr))
           | Some root \<Rightarrow> findInTree fuel env root [Separator env] (f, tr))))"

section \<open>runFind\<close>

text \<open>Lines 254 to 271: the search criteria built from the options and the argument.\<close>

definition runFind_pattern :: "env \<Rightarrow> FindOptions \<Rightarrow> string \<Rightarrow> error + findPattern" where
  "runFind_pattern env opts a =
    (let p = \<lparr>oldest = 0, newest = 0, pattern = a, ignoreCase = False\<rparr>;
         p = (if CaseInsensitive opts then p\<lparr>pattern := ToLower env (pattern p), ignoreCase := True\<rparr>
              else p)
     in (case (if Oldest opts \<noteq> [] then
                 (case parseTime env (Oldest opts) of
                    Inl err \<Rightarrow> Inl err
                  | Inr t \<Rightarrow> Inr (p\<lparr>oldest := t\<rparr>))
               else Inr p) of
           Inl err \<Rightarrow> Inl err
         | Inr p \<Rightarrow>
            if Newest opts \<noteq> [] then
              (case parseTime env (Newest opts) of
                 Inl err \<Rightarrow> Inl err
               | Inr t \<Rightarrow> Inr (p\<lparr>newest := t\<rparr>))
            else Inr p))"

fun runFind_loop :: "nat \<Rightarrow> env \<Rightarrow> snptr list \<Rightarrow> fstate \<Rightarrow> (error option \<times> fstate) option" where
  "runFind_loop fuel env [] st = Some (None, st)"
| "runFind_loop fuel env (sn # sns) st =
    (case findInSnapshot fuel env sn st of
       None \<Rightarrow> None
     | Some (Some err, st) \<Rightarrow> Some (Some err, st)
     | Some (None, st) \<Rightarrow> runFind_loop fuel env sns st)"

text \<open>
  \<^verbatim>\<open>runFind\<close> returns the error (if any) and the trace of the whole invocation.
\<close>

definition runFind ::
  "nat \<Rightarrow> env \<Rightarrow> FindOptions \<Rightarrow> GlobalOptions \<Rightarrow> string list \<Rightarrow> (error option \<times> event list) option" where
  "runFind fuel env opts gopts args =
    (if length args \<noteq> 1 then Some (Some (Fatal ''wrong number of arguments''), [])
     else
       (case runFind_pattern env opts (hd args) of
          Inl err \<Rightarrow> Some (Some err, [])
        | Inr p \<Rightarrow>
           (case OpenRepository env of
              Some err \<Rightarrow> Some (Some err, [])
            | None \<Rightarrow>
               (case (if \<not> NoLock gopts then lockRepo env else None) of
                  Some err \<Rightarrow> Some (Some err, [])
                | None \<Rightarrow>
                   (case LoadIndex env of
                      Some err \<Rightarrow> Some (Some err, [])
                    | None \<Rightarrow>
                       (let f = \<lparr>pat = p,
                                 out = \<lparr>ListLong = FindOptions.ListLong opts,
                                        JSON = GlobalOptions.JSON (globalOptions env),
                                        inuse = False, newsn = None, oldsn = None, hits = 0\<rparr>,
                                 notfound = {}\<rparr>
                        in (case runFind_loop fuel env
                                   (FindFilteredSnapshots env (Host opts) (Tags opts) (Paths opts)
                                      (Snapshots opts))
                                   (f, []) of
                              None \<Rightarrow> None
                            | Some (Some err, (f, tr)) \<Rightarrow> Some (Some err, tr)
                            | Some (None, (f, tr)) \<Rightarrow> Some (None, snd (Finish env (out f, tr))))))))))"

section \<open>The standard library of Go\<close>

text \<open>
  The functions of the Go standard library that the command calls, written after
  \<^verbatim>\<open>strings\<close>, \<^verbatim>\<open>path/filepath\<close> (on Unix) and \<^verbatim>\<open>os\<close>, over bytes: a rune above the
  ASCII range is not decoded. \<^verbatim>\<open>matchChunk\<close> is the one of Go 1.16 and later, which
  after a mismatch goes on through the chunk to check its syntax. They give the
  concrete environments in which the command is run below; the theorems about every
  environment do not use them.
\<close>

definition go_ToLower :: "string \<Rightarrow> string" where
  "go_ToLower s =
    map (\<lambda>c. if (65::nat) \<le> of_char c \<and> of_char c \<le> (90::nat) then char_of (of_char c + (32::nat)) else c) s"

text \<open>\<^verbatim>\<open>filepath.Clean\<close> and \<^verbatim>\<open>filepath.Join\<close>, on the elements of the path.\<close>

fun splitSep :: "string \<Rightarrow> string list" where
  "splitSep [] = [[]]"
| "splitSep (c # cs) =
    (if c = CHR ''/'' then [] # splitSep cs
     else (case splitSep cs of [] \<Rightarrow> [[c]] | e # es \<Rightarrow> (c # e) # es))"

fun joinSep :: "string list \<Rightarrow> string" where
  "joinSep [] = []"
| "joinSep [e] = e"
| "joinSep (e # es) = e @ CHR ''/'' # joinSep es"

fun go_Clean_elems :: "bool \<Rightarrow> string list \<Rightarrow> string list \<Rightarrow> string list" where
  "go_Clean_elems rooted acc [] = rev acc"
| "go_Clean_elems rooted acc (e # es) =
    (if e = [] \<or> e = ''.'' then go_Clean_elems rooted acc es
     else if e = ''..'' then
       (case acc of
          a # acc' \<Rightarrow>
            if a \<noteq> ''..'' then go_Clean_elems rooted acc' es
            else go_Clean_elems rooted (e # acc) es
        | [] \<Rightarrow>
            if rooted then go_Clean_elems rooted acc es
            else go_Clean_elems rooted (e # acc) es)
     else go_Clean_elems rooted (e # acc) es)"

definition go_Clean :: "string \<Rightarrow> string" where
  "go_Clean path =
    (if path = [] then ''.''
     else
       (let rooted = (hd path = CHR ''/'');
            out = joinSep (go_Clean_elems rooted [] (splitSep path))
        in if rooted then CHR ''/'' # out
           else if out = [] then ''.'' else out))"

definition go_Join :: "string \<Rightarrow> string \<Rightarrow> string" where
  "go_Join a b =
    (if a \<noteq> [] then go_Clean (a @ CHR ''/'' # b)
     else if b \<noteq> [] then go_Clean b
     else [])"

text \<open>\<^verbatim>\<open>filepath.Match\<close> with \<^verbatim>\<open>getEsc\<close>, \<^verbatim>\<open>matchChunk\<close> and \<^verbatim>\<open>scanChunk\<close>.\<close>

definition getEsc :: "string \<Rightarrow> error + (nat \<times> string)" where
  "getEsc chunk =
    (if chunk = [] \<or> hd chunk = CHR ''-'' \<or> hd chunk = CHR '']'' then Inl ErrBadPattern
     else
       (let chunk = (if hd chunk = CHR 0x5C then tl chunk else chunk)
        in if chunk = [] then Inl ErrBadPattern
           else if tl chunk = [] then Inl ErrBadPattern
           else Inr (of_char (hd chunk), tl chunk)))"

lemma getEsc_shorter: "getEsc chunk = Inr (r, rest) \<Longrightarrow> length rest < length chunk"
  by (cases chunk) (auto simp: getEsc_def Let_def split: if_splits)

function matchClass :: "string \<Rightarrow> nat \<Rightarrow> bool \<Rightarrow> nat \<Rightarrow> error + (string \<times> bool)" where
  "matchClass chunk r match nrange =
    (if chunk \<noteq> [] \<and> hd chunk = CHR '']'' \<and> 0 < nrange then Inr (tl chunk, match)
     else
       (case getEsc chunk of
          Inl err \<Rightarrow> Inl err
        | Inr (lo, chunk1) \<Rightarrow>
           if hd chunk1 = CHR ''-'' then
             (case getEsc (tl chunk1) of
                Inl err \<Rightarrow> Inl err
              | Inr (hi, chunk2) \<Rightarrow> matchClass chunk2 r (match \<or> (lo \<le> r \<and> r \<le> hi)) (nrange + 1))
           else matchClass chunk1 r (match \<or> (lo \<le> r \<and> r \<le> lo)) (nrange + 1)))"
  by pat_completeness auto
termination
proof (relation "measure (\<lambda>(chunk, r, m, n). length chunk)", goal_cases)
  case 1
  show ?case by simp
next
  case (2 chunk r match nrange x lo chunk1 y hi chunk2)
  then show ?case
    using getEsc_shorter [of chunk lo chunk1] getEsc_shorter [of "tl chunk1" hi chunk2]
    by (cases chunk1) auto
next
  case (3 chunk r match nrange x lo chunk1)
  then show ?case
    using getEsc_shorter [of chunk lo chunk1] by auto
qed

lemma matchClass_shorter:
  "matchClass chunk r m n = Inr (rest, b) \<Longrightarrow> length rest < length chunk"
proof (induction chunk r m n rule: matchClass.induct)
  case (1 chunk r match nrange)
  show ?case
  proof (cases "chunk \<noteq> [] \<and> hd chunk = CHR '']'' \<and> 0 < nrange")
    case True
    with "1.prems" show ?thesis by (cases chunk) auto
  next
    case False
    then obtain lo chunk1 where g1: "getEsc chunk = Inr (lo, chunk1)"
      using "1.prems" by (auto split: sum.splits)
    have l1: "length chunk1 < length chunk" using getEsc_shorter [OF g1] .
    show ?thesis
    proof (cases "hd chunk1 = CHR ''-''")
      case True
      then obtain hi chunk2 where g2: "getEsc (tl chunk1) = Inr (hi, chunk2)"
        using "1.prems" False g1 by (auto split: sum.splits)
      have "matchClass chunk2 r (match \<or> (lo \<le> r \<and> r \<le> hi)) (nrange + 1) = Inr (rest, b)"
        using "1.prems" False g1 True g2 by simp
      from "1.IH"(1) [OF False g1 refl True g2 refl this]
      have "length rest < length chunk2" .
      moreover have "length chunk2 < length (tl chunk1)" using getEsc_shorter [OF g2] .
      ultimately show ?thesis using l1 by simp
    next
      case F2: False
      have "matchClass chunk1 r (match \<or> (lo \<le> r \<and> r \<le> lo)) (nrange + 1) = Inr (rest, b)"
        using "1.prems" False g1 F2 by simp
      from "1.IH"(2) [OF False g1 refl F2 this]
      show ?thesis using l1 by simp
    qed
  qed
qed

text \<open>\<^verbatim>\<open>matchChunk\<close>: the loop over the chunk, with the flag \<^verbatim>\<open>failed\<close>.\<close>

function matchChunk_loop :: "string \<Rightarrow> string \<Rightarrow> bool \<Rightarrow> error + (string \<times> bool)" where
  "matchChunk_loop [] s failed = Inr (s, failed)"
| "matchChunk_loop (c # chunk) s failed0 =
    (let failed = (failed0 \<or> s = []) in
     if c = CHR ''['' then
       (let r = (if \<not> failed then of_char (hd s) else 0);
            s1 = (if \<not> failed then tl s else s);
            negated = (chunk \<noteq> [] \<and> hd chunk = CHR ''^'');
            chunk1 = (if negated then tl chunk else chunk)
        in (case matchClass chunk1 r False 0 of
              Inl err \<Rightarrow> Inl err
            | Inr (chunk2, match) \<Rightarrow> matchChunk_loop chunk2 s1 (failed \<or> match = negated)))
     else if c = CHR ''?'' then
       (if \<not> failed then matchChunk_loop chunk (tl s) (hd s = CHR ''/'')
        else matchChunk_loop chunk s failed)
     else if c = CHR 0x5C then
       (case chunk of
          [] \<Rightarrow> Inl ErrBadPattern
        | d # chunk' \<Rightarrow>
           if \<not> failed then matchChunk_loop chunk' (tl s) (d \<noteq> hd s)
           else matchChunk_loop chunk' s failed)
     else
       (if \<not> failed then matchChunk_loop chunk (tl s) (c \<noteq> hd s)
        else matchChunk_loop chunk s failed))"
  by pat_completeness auto
termination
proof (relation "measure (\<lambda>(chunk, s, f). length chunk)", goal_cases)
  case (2 c chunk s failed0 failed r s1 negated chunk1 x chunk2 match)
  then show ?case
    using matchClass_shorter [of chunk1 r False 0 chunk2 match]
    by (cases chunk) (auto split: if_splits)
qed auto

definition matchChunk :: "string \<Rightarrow> string \<Rightarrow> error + string option" where
  "matchChunk chunk s =
    (case matchChunk_loop chunk s False of
       Inl err \<Rightarrow> Inl err
     | Inr (rest, failed) \<Rightarrow> if failed then Inr None else Inr (Some rest))"

fun scanChunk_scan :: "string \<Rightarrow> bool \<Rightarrow> string \<times> string" where
  "scanChunk_scan [] inrange = ([], [])"
| "scanChunk_scan (c # cs) inrange =
    (if c = CHR 0x5C then
       (case cs of
          [] \<Rightarrow> ([c], [])
        | d # ds \<Rightarrow> (case scanChunk_scan ds inrange of (chunk, rest) \<Rightarrow> (c # d # chunk, rest)))
     else if c = CHR ''['' then
       (case scanChunk_scan cs True of (chunk, rest) \<Rightarrow> (c # chunk, rest))
     else if c = CHR '']'' then
       (case scanChunk_scan cs False of (chunk, rest) \<Rightarrow> (c # chunk, rest))
     else if c = CHR ''*'' \<and> \<not> inrange then ([], c # cs)
     else (case scanChunk_scan cs inrange of (chunk, rest) \<Rightarrow> (c # chunk, rest)))"

definition scanChunk :: "string \<Rightarrow> bool \<times> string \<times> string" where
  "scanChunk pat0 =
    (pat0 \<noteq> [] \<and> hd pat0 = CHR ''*'',
     scanChunk_scan (dropWhile (\<lambda>c. c = CHR ''*'') pat0) False)"

lemma scanChunk_scan_length:
  "scanChunk_scan p inrange = (chunk, rest) \<Longrightarrow> length rest \<le> length p"
  by (induction p inrange arbitrary: chunk rest rule: scanChunk_scan.induct)
     (fastforce split: if_splits list.splits prod.splits)+

lemma scanChunk_scan_shorter:
  "scanChunk_scan (c # p) False = (chunk, rest) \<Longrightarrow> c \<noteq> CHR ''*'' \<Longrightarrow> length rest \<le> length p"
  using scanChunk_scan_length
  by (fastforce split: if_splits list.splits prod.splits)

lemma scanChunk_shorter:
  assumes "scanChunk pat0 = (star, chunk, rest)" and "pat0 \<noteq> []"
  shows "length rest < length pat0"
proof (cases "hd pat0 = CHR ''*''")
  case True
  then obtain p where p: "pat0 = CHR ''*'' # p" using assms(2) by (cases pat0) auto
  have "length rest \<le> length (dropWhile (\<lambda>c. c = CHR ''*'') p)"
    using assms(1) scanChunk_scan_length [of "dropWhile (\<lambda>c. c = CHR ''*'') p" False chunk rest]
    by (simp add: scanChunk_def p)
  also have "\<dots> \<le> length p" by (rule length_dropWhile_le)
  finally show ?thesis by (simp add: p)
next
  case False
  then obtain c p where p: "pat0 = c # p" "c \<noteq> CHR ''*''" using assms(2) by (cases pat0) auto
  then show ?thesis using assms(1) scanChunk_scan_shorter [of c p chunk rest]
    by (simp add: scanChunk_def)
qed

text \<open>The inner loop of \<^verbatim>\<open>Match\<close> that looks for a match of the chunk after a star.\<close>

fun Match_star :: "string \<Rightarrow> bool \<Rightarrow> string \<Rightarrow> error + string option" where
  "Match_star chunk lastChunk [] = Inr None"
| "Match_star chunk lastChunk (c # name) =
    (if c = CHR ''/'' then Inr None
     else
       (case matchChunk chunk name of
          Inl err \<Rightarrow> Inl err
        | Inr (Some t) \<Rightarrow>
            if lastChunk \<and> t \<noteq> [] then Match_star chunk lastChunk name else Inr (Some t)
        | Inr None \<Rightarrow> Match_star chunk lastChunk name))"

text \<open>
  \<^verbatim>\<open>Match\<close>. When a chunk matches neither at the current position nor, after a star,
  further on, the answer is \<open>false\<close> with no error: the chunks after it are not looked
  at.
\<close>

function go_Match :: "string \<Rightarrow> string \<Rightarrow> error + bool" where
  "go_Match pat0 name =
    (if pat0 = [] then Inr (name = [])
     else
       (case scanChunk pat0 of
          (star, chunk, rest) \<Rightarrow>
           if star \<and> chunk = [] then Inr (CHR ''/'' \<notin> set name)
           else
             (case matchChunk chunk name of
                Inl err \<Rightarrow> Inl err
              | Inr r \<Rightarrow>
                 (case (case r of Some t \<Rightarrow> if t = [] \<or> rest \<noteq> [] then Some t else None
                                | None \<Rightarrow> None) of
                    Some t \<Rightarrow> go_Match rest t
                  | None \<Rightarrow>
                     (case (if star then Match_star chunk (rest = []) name else Inr None) of
                        Inl err \<Rightarrow> Inl err
                      | Inr (Some t) \<Rightarrow> go_Match rest t
                      | Inr None \<Rightarrow> Inr False)))))"
  by pat_completeness auto
termination
  by (relation "measure (\<lambda>(p, n). length p)") (auto dest: scanChunk_shorter [OF sym])

text \<open>\<^verbatim>\<open>os.FileMode.String\<close>.\<close>

definition go_FileMode_String :: "32 word \<Rightarrow> string" where
  "go_FileMode_String m =
    (let buf = map snd (filter (\<lambda>(i, c). bit m (32 - 1 - i)) (zip [0..<13] ''dalTLDpSugct?''));
         buf = (if buf = [] then ''-'' else buf)
     in buf @ map (\<lambda>(i, c). if bit m (9 - 1 - i) then c else CHR ''-'') (zip [0..<9] ''rwxrwxrwx''))"

section \<open>A concrete repository\<close>

text \<open>
  The dates of the examples, as seconds from the zero time (the first instant of the
  year 1): three days of 2020 and 2021, and the first instant of the year 10000.
\<close>

definition t_2020_01_01 :: time where "t_2020_01_01 = 63713433600"
definition t_2020_06_01 :: time where "t_2020_06_01 = 63726566400"
definition t_2021_06_01 :: time where "t_2021_06_01 = 63758102400"
definition t_10000_01_01 :: time where "t_10000_01_01 = 315537897600"

definition fileNode :: "string \<Rightarrow> time \<Rightarrow> Node" where
  "fileNode n t = \<lparr>Name = n, Type = ''file'', Mode = 0x1A4, ModTime = t, Subtree = None\<rparr>"

definition dirNode :: "string \<Rightarrow> time \<Rightarrow> ID \<Rightarrow> Node" where
  "dirNode n t sub = \<lparr>Name = n, Type = ''dir'', Mode = 0x800001ED, ModTime = t, Subtree = Some sub\<rparr>"

text \<open>
  Tree 1 holds \<^verbatim>\<open>a.txt\<close> and the directory \<^verbatim>\<open>sub\<close>, which is tree 2 and holds
  \<^verbatim>\<open>b.txt\<close>; tree 3 holds only the directory \<^verbatim>\<open>sub\<close>; tree 4 is empty; tree 5 holds
  the directory \<^verbatim>\<open>build\<close>, which is tree 6 and holds a file \<^verbatim>\<open>build\<close>.
\<close>

definition repo0 :: "ID \<Rightarrow> error + Tree" where
  "repo0 t =
    (if t = 1 then Inr \<lparr>Nodes = [fileNode ''a.txt'' t_2020_01_01, dirNode ''sub'' t_2020_01_01 2]\<rparr>
     else if t = 2 then Inr \<lparr>Nodes = [fileNode ''b.txt'' t_2021_06_01]\<rparr>
     else if t = 3 then Inr \<lparr>Nodes = [dirNode ''sub'' t_2020_01_01 2]\<rparr>
     else if t = 4 then Inr \<lparr>Nodes = []\<rparr>
     else if t = 5 then Inr \<lparr>Nodes = [dirNode ''build'' t_2020_01_01 6]\<rparr>
     else if t = 6 then Inr \<lparr>Nodes = [fileNode ''build'' t_2021_06_01]\<rparr>
     else Inl (ExtError ''tree not found''))"

text \<open>
  The snapshot at address \<open>p\<close> has the identifier \<open>100 + p\<close> and its root is tree
  \<open>p mod 10\<close>: the snapshots 1 and 11 share their root.
\<close>

definition heap0 :: "snptr \<Rightarrow> Snapshot" where
  "heap0 p = \<lparr>ID = 100 + p, Tree = Some (p mod 10)\<rparr>"

text \<open>
  The renderers of the concrete environment. \<^verbatim>\<open>json.Marshal\<close> is reduced to the two
  attributes that \<^verbatim>\<open>PrintJSON\<close> adds, and fails, as the encoder of \<^verbatim>\<open>time.Time\<close> does,
  on a modification time whose year is not between 0 and 9999;
  \<^verbatim>\<open>time.ParseInLocation\<close> knows the three days above in the first layout.
\<close>

definition jsonText :: "string \<Rightarrow> string \<Rightarrow> string" where
  "jsonText path perm =
    ''{'' @ dq @ ''path'' @ dq @ '':'' @ dq @ path @ dq @ '','' @ dq @ ''permissions'' @ dq
      @ '':'' @ dq @ perm @ dq @ ''}''"

definition go_Marshal :: "findNodeJSON \<Rightarrow> error + string" where
  "go_Marshal v =
    (if ModTime (findNode v) < - 31622400 \<or> t_10000_01_01 \<le> ModTime (findNode v)
     then Inl (ExtError ''json: error calling MarshalJSON for type time.Time'')
     else Inr (jsonText (Path v) (Permissions v)))"

definition go_ParseInLocation :: "string \<Rightarrow> string \<Rightarrow> error + time" where
  "go_ParseInLocation layout str =
    (if layout = ''2006-01-02'' \<and> str = ''2020-01-01'' then Inr t_2020_01_01
     else if layout = ''2006-01-02'' \<and> str = ''2020-06-01'' then Inr t_2020_06_01
     else if layout = ''2006-01-02'' \<and> str = ''2021-06-01'' then Inr t_2021_06_01
     else Inl (ExtError ''parsing time''))"

text \<open>
  Modelled from the spec: \<^verbatim>\<open>formatNode\<close> is defined in another file of the command.
  Each record is one line that contains the path and, if requested, the permissions.
\<close>

definition go_formatNode :: "string \<Rightarrow> Node \<Rightarrow> bool \<Rightarrow> string" where
  "go_formatNode prefix n long =
    (if \<not> long then go_Join prefix (Name n)
     else go_FileMode_String (Mode n) @ '' '' @ go_Join prefix (Name n))"

text \<open>The environment \<open>env0 json sns\<close>: the output mode and the snapshots that the source yields.\<close>

definition env0 :: "bool \<Rightarrow> snptr list \<Rightarrow> env" where
  "env0 json sns =
    \<lparr>LoadTree = repo0,
     Match = go_Match,
     Join = go_Join,
     Separator = CHR ''/'',
     ToLower = go_ToLower,
     ModeString = go_FileMode_String,
     Marshal = go_Marshal,
     formatNode = go_formatNode,
     ParseInLocation = go_ParseInLocation,
     deref = heap0,
     globalOptions = \<lparr>NoLock = False, JSON = json\<rparr>,
     OpenRepository = None,
     lockRepo = None,
     LoadIndex = None,
     FindFilteredSnapshots = (\<lambda>host tags paths ids. sns)\<rparr>"

definition opts0 :: FindOptions where
  "opts0 = \<lparr>Oldest = [], Newest = [], Snapshots = [], CaseInsensitive = False, ListLong = False,
            Host = [], Paths = [], Tags = []\<rparr>"

definition gopts0 :: "bool \<Rightarrow> GlobalOptions" where
  "gopts0 json = \<lparr>NoLock = False, JSON = json\<rparr>"

section \<open>Notions of the specification\<close>

text \<open>
  The time window in the words of the specification: an entry matches only if its
  modification time is at least \<open>oldest\<close> (when set) and at most \<open>newest\<close> (when
  set). A bound is set when it is not the zero time.
\<close>

definition inWindow :: "findPattern \<Rightarrow> time \<Rightarrow> bool" where
  "inWindow p t = ((IsZero (oldest p) \<or> oldest p \<le> t) \<and> (IsZero (newest p) \<or> t \<le> newest p))"

text \<open>A path is absolute when it begins with the path separator.\<close>

definition rooted :: "env \<Rightarrow> string \<Rightarrow> bool" where
  "rooted env p = (p \<noteq> [] \<and> hd p = Separator env)"

text \<open>The value that \<^verbatim>\<open>PrintJSON\<close> hands to the encoder for an entry below a prefix.\<close>

definition jsonValue :: "env \<Rightarrow> string \<Rightarrow> Node \<Rightarrow> findNodeJSON" where
  "jsonValue env prefix node =
    \<lparr>Path = Join env prefix (Name node), Permissions = ModeString env (Mode node), findNode = node\<rparr>"

text \<open>
  A finder in the middle of the search of the snapshot at address 1, before any
  output, for a given output mode and given criteria.
\<close>

definition finder0 :: "bool \<Rightarrow> findPattern \<Rightarrow> Finder" where
  "finder0 json p =
    \<lparr>pat = p,
     out = \<lparr>ListLong = False, JSON = json, inuse = False, newsn = Some 1, oldsn = None, hits = 0\<rparr>,
     notfound = {}\<rparr>"

section \<open>Notions used in the properties\<close>

text \<open>
  The events that are a tree loaded from the repository.
\<close>

fun isLoadTreeCall :: "event \<Rightarrow> bool" where
  "isLoadTreeCall (LoadTreeCall t) = True"
| "isLoadTreeCall ev = False"

text \<open>An event that writes neither to the result stream nor to the verbose stream.\<close>

fun silent :: "event \<Rightarrow> bool" where
  "silent (Printf fmt as) = False"
| "silent (Verbosef fmt as) = False"
| "silent (FormatNodeCall prefix node long) = False"
| "silent ev = True"

text \<open>A match is emitted when a renderer is called for it and succeeds.\<close>

fun isRecord :: "env \<Rightarrow> event \<Rightarrow> bool" where
  "isRecord env (FormatNodeCall prefix node long) = True"
| "isRecord env (MarshalCall v) = (case Marshal env v of Inr b \<Rightarrow> True | Inl err \<Rightarrow> False)"
| "isRecord env ev = False"

text \<open>
  The paths of a record handed to a renderer are absolute.
\<close>

fun pathRooted :: "env \<Rightarrow> event \<Rightarrow> bool" where
  "pathRooted env (MarshalCall v) = rooted env (Path v)"
| "pathRooted env (FormatNodeCall prefix node long) =
     (rooted env prefix \<and> rooted env (Join env prefix (Name node)))"
| "pathRooted env ev = True"

text \<open>The events that write to the result stream.\<close>

fun isPrintf :: "event \<Rightarrow> bool" where
  "isPrintf (Printf fmt as) = True"
| "isPrintf ev = False"

text \<open>
  The records emitted in a piece of the trace of the structured mode, as serialised:
  the results of the calls to the encoder that succeed, in order.
\<close>

fun records :: "env \<Rightarrow> event list \<Rightarrow> string list" where
  "records env [] = []"
| "records env (MarshalCall v # tr) =
    (case Marshal env v of Inr b \<Rightarrow> b # records env tr | Inl err \<Rightarrow> records env tr)"
| "records env (ev # tr) = records env tr"

text \<open>
  The hits of a run over the snapshots: each record emitted, with the snapshot that
  was being searched when it was emitted. The records of a snapshot are those of the
  part of the trace that its search adds.
\<close>

fun hitsOf :: "nat \<Rightarrow> env \<Rightarrow> snptr list \<Rightarrow> fstate \<Rightarrow> (snptr \<times> string) list" where
  "hitsOf fuel env [] st = []"
| "hitsOf fuel env (sn # sns) st =
    (case findInSnapshot fuel env sn st of
       None \<Rightarrow> []
     | Some (r, st') \<Rightarrow>
        map (Pair sn) (records env (drop (length (snd st)) (snd st')))
          @ (if r = None then hitsOf fuel env sns st' else []))"

text \<open>
  The groups of a list of hits: a hit joins the last group when that group is of its
  snapshot, and begins a new group otherwise. A group is a snapshot and its records.
\<close>

definition addHit :: "(snptr \<times> string list) list \<Rightarrow> snptr \<times> string \<Rightarrow> (snptr \<times> string list) list" where
  "addHit gs h =
    (if gs \<noteq> [] \<and> fst (last gs) = fst h then butlast gs @ [(fst h, snd (last gs) @ [snd h])]
     else gs @ [(fst h, [snd h])])"

definition grouped :: "(snptr \<times> string) list \<Rightarrow> (snptr \<times> string list) list" where
  "grouped hs = foldl addHit [] hs"

text \<open>
  The structured document, as the writes to the result stream that make it. A group
  is the object \<^verbatim>\<open>{"matches":[\<close> records \<^verbatim>\<open>],"hits":\<close> count \<^verbatim>\<open>,"snapshot":\<close> identifier
  \<^verbatim>\<open>}\<close>, with commas between the records; the count is the number of records of the
  group and the identifier that of its snapshot.
\<close>

fun body :: "string list \<Rightarrow> event list" where
  "body [] = []"
| "body [b] = [Printf b []]"
| "body (b # bs) = Printf b [] # Printf '','' [] # body bs"

definition groupOpen :: event where
  \<open>groupOpen = Printf ''{"matches":['' []\<close>

definition groupClose :: "env \<Rightarrow> snptr \<times> string list \<Rightarrow> string \<Rightarrow> event" where
  \<open>groupClose env g sep =
    Printf (''],"hits":%d,"snapshot":%q}'' @ sep) [AInt (of_nat (length (snd g))), AID (ID (deref env (fst g)))]\<close>

text \<open>A group that is followed by another one.\<close>

definition closedGroup :: "env \<Rightarrow> snptr \<times> string list \<Rightarrow> event list" where
  "closedGroup env g = groupOpen # body (snd g) @ [groupClose env g '','']"

text \<open>
  The document before \<^verbatim>\<open>Finish\<close>: nothing when there is no group, and otherwise the
  opening bracket and the groups, the last one still open.
\<close>

definition unfinished :: "env \<Rightarrow> (snptr \<times> string list) list \<Rightarrow> event list" where
  "unfinished env gs =
    (if gs = [] then []
     else Printf ''['' [] # concat (map (closedGroup env) (butlast gs)) @ groupOpen # body (snd (last gs)))"

text \<open>
  What is left to write: the empty array when there is no group, and otherwise the
  end of the last group and the closing bracket.
\<close>

definition closing :: "env \<Rightarrow> (snptr \<times> string list) list \<Rightarrow> event list" where
  "closing env gs =
    (if gs = [] then [Printf ''[]\<newline>'' []]
     else [groupClose env (last gs) [], Printf '']\<newline>'' []])"

text \<open>
  The sink of the structured mode and the trace agree with the hits so far: the
  writes to the result stream are the unfinished document of their groups, the
  document is in use when there is a hit, the previous snapshot is that of the last
  hit, and the counter is the number of records of the last group.
\<close>

definition docInv :: "env \<Rightarrow> (snptr \<times> string) list \<Rightarrow> statefulOutput \<times> event list \<Rightarrow> bool" where
  "docInv env hs st =
    (case st of (s, tr) \<Rightarrow>
      filter isPrintf tr = unfinished env (grouped hs) \<and>
      inuse s = (hs \<noteq> []) \<and>
      oldsn s = (if hs = [] then None else Some (fst (last hs))) \<and>
      (hs \<noteq> [] \<longrightarrow> hits s = of_nat (length (snd (last (grouped hs))))) \<and>
      length hs \<le> length tr)"

text \<open>The search of a snapshot adds its hits.\<close>

definition docRel :: "env \<Rightarrow> fstate \<Rightarrow> fstate \<Rightarrow> bool" where
  "docRel env st st' =
    (JSON (out (fst st)) \<longrightarrow>
       JSON (out (fst st')) \<and> newsn (out (fst st')) = newsn (out (fst st)) \<and>
       (\<exists>new. snd st' = snd st @ new \<and>
          (\<forall>sn hs. newsn (out (fst st)) = Some sn \<and> docInv env hs (out (fst st), snd st)
                     \<and> length (snd st') < 2 ^ 63
             \<longrightarrow> docInv env (hs @ map (Pair sn) (records env new)) (out (fst st'), snd st'))))"

text \<open>The trace only grows.\<close>

definition growRel :: "fstate \<Rightarrow> fstate \<Rightarrow> bool" where
  "growRel st st' = (\<exists>new. snd st' = snd st @ new)"

text \<open>
  The search from one state to another, as far as the output goes: while a snapshot
  is being searched, the new part of the trace is silent and the sink is unchanged,
  or the new part holds an emitted record.
\<close>

definition quietRel :: "env \<Rightarrow> fstate \<Rightarrow> fstate \<Rightarrow> bool" where
  "quietRel env st st' =
    (newsn (out (fst st)) \<noteq> None \<longrightarrow>
       newsn (out (fst st')) = newsn (out (fst st)) \<and>
       (\<exists>new. snd st' = snd st @ new \<and>
          ((\<forall>ev \<in> set new. \<not> isRecord env ev) \<longrightarrow>
             (\<forall>ev \<in> set new. silent ev) \<and> out (fst st') = out (fst st))))"

text \<open>\<^verbatim>\<open>filepath.Join\<close> keeps a path that begins with the separator beginning with it.\<close>

definition joinKeepsRoot :: "env \<Rightarrow> bool" where
  "joinKeepsRoot env = (\<forall>p n. rooted env p \<longrightarrow> rooted env (Join env p n))"

text \<open>
  The new part of the trace holds only records with absolute paths.
\<close>

definition rootedRel :: "env \<Rightarrow> fstate \<Rightarrow> fstate \<Rightarrow> bool" where
  "rootedRel env st st' = (\<exists>new. snd st' = snd st @ new \<and> (\<forall>ev \<in> set new. pathRooted env ev))"





text \<open>
  The rest of an iteration of the loop once the match block is done (lines 225 to
  229): the recursion into a directory, then the remaining entries, \<open>k\<close>.
\<close>

definition findInTree_dir ::
  "(ID \<Rightarrow> string \<Rightarrow> fstate \<Rightarrow> (error option \<times> fstate) option) \<Rightarrow> env \<Rightarrow> string \<Rightarrow> Node
     \<Rightarrow> (bool \<Rightarrow> fstate \<Rightarrow> (error option \<times> bool \<times> fstate) option)
     \<Rightarrow> bool \<Rightarrow> fstate \<Rightarrow> (error option \<times> bool \<times> fstate) option" where
  "findInTree_dir rec env prefix node k found st =
    (if Type node = ''dir'' then
       (case Subtree node of
          None \<Rightarrow> Some (Some (Panic ''nil pointer dereference''), found, st)
        | Some sub \<Rightarrow>
           (case rec sub (Join env prefix (Name node)) st of
              None \<Rightarrow> None
            | Some (Some err, st) \<Rightarrow> Some (Some err, found, st)
            | Some (None, st) \<Rightarrow> k found st))
     else k found st)"

text \<open>An entry is accepted when its name matches and no guard of the time window fires.\<close>

definition accepted :: "env \<Rightarrow> findPattern \<Rightarrow> Node \<Rightarrow> bool" where
  "accepted env p node = (matchName env p node = Inr True \<and> \<not> timeRejected p node)"

text \<open>A tree has a direct match when one of its own entries is accepted.\<close>

definition directMatch :: "env \<Rightarrow> findPattern \<Rightarrow> ID \<Rightarrow> bool" where
  "directMatch env p t =
    (case LoadTree env t of
       Inl err \<Rightarrow> False
     | Inr tree \<Rightarrow> list_ex (accepted env p) (Nodes tree))"

text \<open>
  The trees below a tree: the tree itself, and the trees below the subtree of one of
  its directories.
\<close>

inductive reaches :: "env \<Rightarrow> ID \<Rightarrow> ID \<Rightarrow> bool" for env where
  here: "reaches env t t"
| below: "LoadTree env t = Inr tree \<Longrightarrow> node \<in> set (Nodes tree) \<Longrightarrow> Type node = ''dir''
      \<Longrightarrow> Subtree node = Some sub \<Longrightarrow> reaches env sub u \<Longrightarrow> reaches env t u"

text \<open>
  A tree is free of matches when neither the tree nor any tree below it has an entry
  that is accepted: these are the trees that the specification lets into the cache.
\<close>

definition matchFree :: "env \<Rightarrow> findPattern \<Rightarrow> ID \<Rightarrow> bool" where
  "matchFree env p t = (\<forall>u. reaches env t u \<longrightarrow> \<not> directMatch env p u)"

text \<open>
  The trees of the repository form a DAG: a rank decreases from every tree to the
  subtrees of its entries, as the height does in a content-addressed store.
\<close>

definition descending :: "env \<Rightarrow> (ID \<Rightarrow> nat) \<Rightarrow> bool" where
  "descending env rank =
    (\<forall>t tree node sub. LoadTree env t = Inr tree \<longrightarrow> node \<in> set (Nodes tree) \<longrightarrow>
        Subtree node = Some sub \<longrightarrow> rank sub < rank t)"

text \<open>
  How often a tree was loaded.
\<close>

definition loads :: "ID \<Rightarrow> event list \<Rightarrow> nat" where
  "loads t tr = count_list tr (LoadTreeCall t)"

text \<open>
  The invariant of the cache: no tree in the cache has a direct match, and a tree
  without a direct match that was loaded is in the cache or among the trees \<open>A\<close>
  being traversed, and was loaded once.
\<close>

definition onceInv :: "env \<Rightarrow> findPattern \<Rightarrow> ID set \<Rightarrow> Finder \<Rightarrow> event list \<Rightarrow> bool" where
  "onceInv env p A f tr =
    (pat f = p \<and>
     (\<forall>T \<in> notfound f. \<not> directMatch env p T) \<and>
     (\<forall>T. \<not> directMatch env p T \<longrightarrow>
        loads T tr \<le> 1 \<and> (loads T tr = 0 \<or> T \<in> notfound f \<union> A)))"

text \<open>The loop keeps the criteria, and never resets \<^verbatim>\<open>found\<close>.\<close>

definition keepRel :: "error option \<Rightarrow> bool \<times> fstate \<Rightarrow> bool \<times> fstate \<Rightarrow> bool" where
  "keepRel r x y = (pat (fst (snd y)) = pat (fst (snd x)) \<and> (fst x \<longrightarrow> fst y))"

text \<open>
  What is left of the invariant after an error: the cache is sound and the loads are bounded.
\<close>

definition onceErr :: "env \<Rightarrow> findPattern \<Rightarrow> Finder \<Rightarrow> event list \<Rightarrow> bool" where
  "onceErr env p f tr =
    (pat f = p \<and>
     (\<forall>T \<in> notfound f. \<not> directMatch env p T) \<and>
     (\<forall>T. \<not> directMatch env p T \<longrightarrow> loads T tr \<le> 1))"

text \<open>
  What holds after the search of a tree, by its result.
\<close>

definition oncePost :: "env \<Rightarrow> findPattern \<Rightarrow> ID set \<Rightarrow> error option \<Rightarrow> Finder \<Rightarrow> event list \<Rightarrow> bool" where
  "oncePost env p A r f tr = (if r = None then onceInv env p A f tr else onceErr env p f tr)"

text \<open>
  The loop over the entries of the tree \<open>t\<close> keeps the invariant, and sets \<^verbatim>\<open>found\<close> only when
  the tree has a direct match.
\<close>

definition onceRel ::
  "env \<Rightarrow> findPattern \<Rightarrow> ID set \<Rightarrow> ID \<Rightarrow> error option \<Rightarrow> bool \<times> fstate \<Rightarrow> bool \<times> fstate \<Rightarrow> bool" where
  "onceRel env p A t r x y =
    (onceInv env p A (fst (snd x)) (snd (snd x)) \<and> (fst x \<longrightarrow> directMatch env p t) \<longrightarrow>
       (fst y \<longrightarrow> directMatch env p t) \<and>
       oncePost env p A r (fst (snd y)) (snd (snd y)))"

text \<open>
  A rank for the concrete repository: the trees with a directory are above the others.
\<close>

definition repo0_rank :: "ID \<Rightarrow> nat" where
  "repo0_rank t = (if t = 1 \<or> t = 3 \<or> t = 5 then 1 else 0)"

section \<open>The search preserves every step-wise relation\<close>

lemma findInTree_loop_rel_aux:
  assumes refl: "\<And>x. R None x x"
    and err: "\<And>a b e. R None a b \<Longrightarrow> R (Some e) a b"
    and trans: "\<And>a b c r. R None a b \<Longrightarrow> R r b c \<Longrightarrow> R r a c"
    and print: "\<And>node found f tr perr s tr'. node \<in> set nodes \<Longrightarrow>
        matchName env (pat f) node = Inr True \<Longrightarrow> \<not> timeRejected (pat f) node \<Longrightarrow>
        Print env prefix node (out f, tr) = (perr, s, tr') \<Longrightarrow>
        R perr (found, (f, tr)) (True, (f\<lparr>out := s\<rparr>, tr'))"
    and rec: "\<And>node sub found st r st'. node \<in> set nodes \<Longrightarrow> Subtree node = Some sub \<Longrightarrow>
        rec sub (Join env prefix (Name node)) st = Some (r, st') \<Longrightarrow> R r (found, st) (found, st')"
  shows "set ns \<subseteq> set nodes \<Longrightarrow> findInTree_loop rec env prefix ns found st = Some (r, found', st')
          \<Longrightarrow> R r (found, st) (found', st')"
proof (induction ns arbitrary: found st)
  case Nil
  then show ?case using refl by simp
next
  case (Cons node ns)
  obtain f tr where st: "st = (f, tr)" by (cases st)
  from Cons.prems(1) have mem: "node \<in> set nodes" and sub: "set ns \<subseteq> set nodes" by simp_all
  note IH = Cons.IH [OF sub]
  show ?case
  proof (cases "matchName env (pat f) node")
    case (Inl e)
    with Cons.prems(2) st have "r = Some e" "found' = found" "st' = st" by auto
    then show ?thesis using err [OF refl] by simp
  next
    case (Inr m)
    show ?thesis
    proof (cases "m \<and> timeRejected (pat f) node")
      case True
      with Cons.prems(2) st Inr show ?thesis using IH by simp
    next
      case False
      define res1 where "res1 = (if m then (case Print env prefix node (out f, tr) of
                                (perr, s, tr') \<Rightarrow> (perr, True, (f\<lparr>out := s\<rparr>, tr')))
                   else (None, found, st))"
      obtain perr found1 st1 where res1: "res1 = (perr, found1, st1)" by (cases res1)
      have R1: "R perr (found, st) (found1, st1)"
        using res1 print [OF mem, where f = f and found = found and tr = tr] refl Inr False
        by (auto simp: res1_def st split: if_splits prod.splits)
      have prem: "(case res1 of
               (Some perr, found, st) \<Rightarrow> Some (Some perr, found, st)
             | (None, found, st) \<Rightarrow>
                if Type node = ''dir'' then
                  (case Subtree node of
                     None \<Rightarrow> Some (Some (Panic ''nil pointer dereference''), found, st)
                   | Some sub \<Rightarrow>
                      (case rec sub (Join env prefix (Name node)) st of
                         None \<Rightarrow> None
                       | Some (Some err, st) \<Rightarrow> Some (Some err, found, st)
                       | Some (None, st) \<Rightarrow> findInTree_loop rec env prefix ns found st))
                else findInTree_loop rec env prefix ns found st) = Some (r, found', st')"
        using Cons.prems(2) False Inr unfolding st res1_def by simp
      show ?thesis
      proof (cases perr)
        case (Some e)
        with prem res1 R1 show ?thesis by simp
      next
        case None
        note pn = None
        show ?thesis
        proof (cases "Type node = ''dir''")
          case False
          with prem res1 pn have "findInTree_loop rec env prefix ns found1 st1 = Some (r, found', st')"
            by simp
          from trans [OF R1 [unfolded pn] IH [OF this]] show ?thesis .
        next
          case True
          show ?thesis
          proof (cases "Subtree node")
            case None
            with prem res1 pn True have "r = Some (Panic ''nil pointer dereference'')"
              "found' = found1" "st' = st1" by simp_all
            with err [OF R1 [unfolded pn]] show ?thesis by simp
          next
            case (Some sub)
            with prem res1 pn True obtain r2 st2 where
              r2: "rec sub (Join env prefix (Name node)) st1 = Some (r2, st2)"
              by (auto split: option.splits)
            have R2: "R r2 (found, st) (found1, st2)"
              using trans [OF R1 [unfolded pn] rec [OF mem Some r2]] .
            show ?thesis
            proof (cases r2)
              case None
              with prem res1 pn True Some r2
              have "findInTree_loop rec env prefix ns found1 st2 = Some (r, found', st')"
                by simp
              from trans [OF R2 [unfolded None] IH [OF this]] show ?thesis .
            next
              case (Some e)
              with prem res1 pn True \<open>Subtree node = Some sub\<close> r2 R2 show ?thesis by simp
            qed
          qed
        qed
      qed
    qed
  qed
qed

lemma findInTree_loop_rel:
  assumes "\<And>x. R None x x"
    and "\<And>a b e. R None a b \<Longrightarrow> R (Some e) a b"
    and "\<And>a b c r. R None a b \<Longrightarrow> R r b c \<Longrightarrow> R r a c"
    and "\<And>node found f tr perr s tr'. node \<in> set nodes \<Longrightarrow>
        matchName env (pat f) node = Inr True \<Longrightarrow> \<not> timeRejected (pat f) node \<Longrightarrow>
        Print env prefix node (out f, tr) = (perr, s, tr') \<Longrightarrow>
        R perr (found, (f, tr)) (True, (f\<lparr>out := s\<rparr>, tr'))"
    and "\<And>node sub found st r st'. node \<in> set nodes \<Longrightarrow> Subtree node = Some sub \<Longrightarrow>
        rec sub (Join env prefix (Name node)) st = Some (r, st') \<Longrightarrow> R r (found, st) (found, st')"
    and "findInTree_loop rec env prefix nodes found st = Some (r, found', st')"
  shows "R r (found, st) (found', st')"
  using findInTree_loop_rel_aux [where R = R and nodes = nodes and ns = nodes, OF assms(1-5) subset_refl assms(6)] .

lemma findInTree_rel:
  assumes refl: "\<And>st. R st st"
    and trans: "\<And>a b c. R a b \<Longrightarrow> R b c \<Longrightarrow> R a c"
    and print: "\<And>prefix node f tr perr s tr'. Ip prefix \<Longrightarrow> matchName env (pat f) node = Inr True \<Longrightarrow>
        Print env prefix node (out f, tr) = (perr, s, tr') \<Longrightarrow> R (f, tr) (f\<lparr>out := s\<rparr>, tr')"
    and join: "\<And>prefix n. Ip prefix \<Longrightarrow> Ip (Join env prefix n)"
    and load: "\<And>f tr t. t \<notin> notfound f \<Longrightarrow> R (f, tr) (f, tr @ [LoadTreeCall t])"
    and ins: "\<And>f tr t. R (f, tr) (f\<lparr>notfound := insert t (notfound f)\<rparr>, tr)"
  shows "Ip prefix \<Longrightarrow> findInTree fuel env t prefix st = Some (r, st') \<Longrightarrow> R st st'"
proof (induction fuel arbitrary: t prefix st r st')
  case 0
  then show ?case by simp
next
  case (Suc fuel)
  obtain f tr where st: "st = (f, tr)" by (cases st)
  show ?case
  proof (cases "t \<in> notfound f")
    case True
    with Suc.prems st show ?thesis using refl by simp
  next
    case False
    have L: "R st (f, tr @ [LoadTreeCall t])" unfolding st using load [OF False] .
    show ?thesis
    proof (cases "LoadTree env t")
      case (Inl err)
      with Suc.prems st False L show ?thesis by simp
    next
      case (Inr tree)
      with Suc.prems st False obtain r1 found1 f1 tr1 where
        loop: "findInTree_loop (\<lambda>t p s. findInTree fuel env t p s) env prefix (Nodes tree) False
                    (f, tr @ [LoadTreeCall t]) = Some (r1, found1, (f1, tr1))"
        by (auto split: option.splits)
      have "(\<lambda>r x y. R (snd x) (snd y)) r1 (False, (f, tr @ [LoadTreeCall t])) (found1, (f1, tr1))"
      proof (rule findInTree_loop_rel [where R = "\<lambda>r x y. R (snd x) (snd y)", OF _ _ _ _ _ loop])
        show "\<And>x. R (snd x) (snd x)" by (rule refl)
        show "\<And>a b c. R (snd a) (snd b) \<Longrightarrow> R (snd b) (snd c) \<Longrightarrow> R (snd a) (snd c)" by (rule trans)
        show "\<And>node found f tr perr s tr'. node \<in> set (Nodes tree) \<Longrightarrow>
          matchName env (pat f) node = Inr True \<Longrightarrow> \<not> timeRejected (pat f) node \<Longrightarrow>
          Print env prefix node (out f, tr) = (perr, s, tr') \<Longrightarrow>
          R (snd (found, (f, tr))) (snd (True, (f\<lparr>out := s\<rparr>, tr')))"
          using print [OF Suc.prems(1)] by simp
        show "\<And>node sub found st r st'. node \<in> set (Nodes tree) \<Longrightarrow> Subtree node = Some sub \<Longrightarrow>
          findInTree fuel env sub (Join env prefix (Name node)) st = Some (r, st') \<Longrightarrow>
          R (snd (found, st)) (snd (found, st'))"
          using Suc.IH [OF join [OF Suc.prems(1)]] by simp
      qed simp
      then have R1: "R (f, tr @ [LoadTreeCall t]) (f1, tr1)" by simp
      show ?thesis
      proof (cases r1)
        case None
        with Suc.prems(2) st False Inr loop
        have "st' = (if \<not> found1 then f1\<lparr>notfound := insert t (notfound f1)\<rparr> else f1, tr1)"
          by simp
        then have "R (f1, tr1) st'" using ins [of f1 tr1 t] refl by (cases found1) auto
        with L R1 show ?thesis by (blast intro: trans)
      next
        case (Some e)
        with Suc.prems(2) st False Inr loop have "st' = (f1, tr1)" by simp
        with L R1 show ?thesis by (blast intro: trans)
      qed
    qed
  qed
qed

lemma PrintJSON_cases:
  "PrintJSON env prefix node (s, tr) = (s', tr') \<Longrightarrow>
    (\<exists>err. Marshal env (jsonValue env prefix node) = Inl err \<and> s' = s
        \<and> tr' = tr @ [MarshalCall (jsonValue env prefix node), Warnf ''Marshall failed: %v\<newline>'' [AErr err]])
    \<or> (\<exists>b mid. Marshal env (jsonValue env prefix node) = Inr b
        \<and> tr' = tr @ MarshalCall (jsonValue env prefix node) # mid @ [Printf b []]
        \<and> (\<forall>ev \<in> set mid. \<exists>fmt as. ev = Printf fmt as)
        \<and> inuse s' \<and> oldsn s' = newsn s \<and> newsn s' = newsn s
        \<and> JSON s' = JSON s \<and> ListLong s' = ListLong s)"
  by (auto simp: PrintJSON_def jsonValue_def Let_def split: sum.splits if_splits option.splits)

lemma PrintNormal_cases:
  "PrintNormal env prefix node (s, tr) = (perr, s', tr') \<Longrightarrow> newsn s \<noteq> None \<Longrightarrow>
     perr = None \<and> s' = s\<lparr>oldsn := newsn s\<rparr>
     \<and> (\<exists>pre. tr' = tr @ pre @ [FormatNodeCall prefix node (ListLong s),
                             Printf (formatNode env prefix node (ListLong s) @ ''\<newline>'') []]
          \<and> (\<forall>ev \<in> set pre. \<exists>fmt as. ev = Verbosef fmt as))"
  by (auto simp: PrintNormal_def Let_def split: if_splits option.splits)

section \<open>The time window\<close>

lemma timeRejected_inWindow: "timeRejected p node = (\<not> inWindow p (ModTime node))"
  by (auto simp: timeRejected_def inWindow_def Before_def After_def)

lemma findInTree_loop_accepted:
  assumes "matchName env (pat f) node = Inr True" and "\<not> timeRejected (pat f) node"
  shows "findInTree_loop rec env prefix (node # nodes) found (f, tr) =
          (case Print env prefix node (out f, tr) of
             (Some perr, s, tr') \<Rightarrow> Some (Some perr, True, (f\<lparr>out := s\<rparr>, tr'))
           | (None, s, tr') \<Rightarrow>
               findInTree_dir rec env prefix node (findInTree_loop rec env prefix nodes) True
                 (f\<lparr>out := s\<rparr>, tr'))"
  using assms
  by (auto simp: findInTree_dir_def split: prod.splits option.splits)

text \<open>
  Claim C4. For an entry whose name matches the pattern, the window of modification
  times is inclusive on both ends. An entry outside the window of the specification
  (\<open>inWindow\<close>: at least \<open>oldest\<close> when that bound is set, at most \<open>newest\<close> when that
  bound is set, a zero bound being no constraint) is passed over and changes nothing;
  an entry inside it, the bounds included, is handed to the sink and sets \<^verbatim>\<open>found\<close>,
  and the iteration goes on.
\<close>

theorem time_window_inclusive:
  assumes "matchName env (pat f) node = Inr True"
  shows "findInTree_loop rec env prefix (node # nodes) found (f, tr) =
          (if inWindow (pat f) (ModTime node) then
             (case Print env prefix node (out f, tr) of
                (Some perr, s, tr') \<Rightarrow> Some (Some perr, True, (f\<lparr>out := s\<rparr>, tr'))
              | (None, s, tr') \<Rightarrow>
                  findInTree_dir rec env prefix node (findInTree_loop rec env prefix nodes) True
                    (f\<lparr>out := s\<rparr>, tr'))
           else findInTree_loop rec env prefix nodes found (f, tr))"
proof (cases "inWindow (pat f) (ModTime node)")
  case True
  then have "\<not> timeRejected (pat f) node" by (simp add: timeRejected_inWindow)
  from findInTree_loop_accepted [OF assms this] True show ?thesis by simp
next
  case False
  then have "timeRejected (pat f) node" by (simp add: timeRejected_inWindow)
  with assms False show ?thesis by simp
qed

text \<open>
  The file \<^verbatim>\<open>b.txt\<close>, modified at the instant that is both the oldest and the newest
  bound, is reported.
\<close>

theorem time_window_inclusive_witness:
  "matchName (env0 False [1])
     (pat (finder0 False \<lparr>oldest = t_2021_06_01, newest = t_2021_06_01, pattern = ''*.txt'', ignoreCase = False\<rparr>))
     (fileNode ''b.txt'' t_2021_06_01) = Inr True
   \<and> inWindow \<lparr>oldest = t_2021_06_01, newest = t_2021_06_01, pattern = ''*.txt'', ignoreCase = False\<rparr> t_2021_06_01
   \<and> findInTree_loop (\<lambda>t p s. None) (env0 False [1]) ''/sub'' [fileNode ''b.txt'' t_2021_06_01] False
       (finder0 False \<lparr>oldest = t_2021_06_01, newest = t_2021_06_01, pattern = ''*.txt'', ignoreCase = False\<rparr>, [])
     = Some (None, True,
         (finder0 False \<lparr>oldest = t_2021_06_01, newest = t_2021_06_01, pattern = ''*.txt'', ignoreCase = False\<rparr>)
           \<lparr>out := \<lparr>ListLong = False, JSON = False, inuse = False, newsn = Some 1, oldsn = Some 1, hits = 0\<rparr>\<rparr>,
         [Verbosef ''Found matching entries in snapshot %s\<newline>'' [AID 101],
          FormatNodeCall ''/sub'' (fileNode ''b.txt'' t_2021_06_01) False,
          Printf ''/sub/b.txt\<newline>'' []])"
proof -
  let ?env = "env0 False [1]"
  let ?p = "\<lparr>oldest = t_2021_06_01, newest = t_2021_06_01, pattern = ''*.txt'', ignoreCase = False\<rparr>"
  let ?b = "fileNode ''b.txt'' t_2021_06_01"
  let ?k = "findInTree_loop (\<lambda>t p s. None) ?env ''/sub'' []"
  have h: "matchName ?env (pat (finder0 False ?p)) ?b = Inr True"
    by code_simp
  have w: "inWindow ?p t_2021_06_01" by (simp add: inWindow_def)
  have g: "inWindow (pat (finder0 False ?p)) (ModTime ?b)"
    by (simp add: fileNode_def finder0_def inWindow_def)
  have pr: "(case Print ?env ''/sub'' ?b (out (finder0 False ?p), []) of
               (Some perr, s, tr') \<Rightarrow> Some (Some perr, True, ((finder0 False ?p)\<lparr>out := s\<rparr>, tr'))
             | (None, s, tr') \<Rightarrow>
                 findInTree_dir (\<lambda>t p s. None) ?env ''/sub'' ?b ?k True ((finder0 False ?p)\<lparr>out := s\<rparr>, tr'))
       = Some (None, True,
         (finder0 False ?p)
           \<lparr>out := \<lparr>ListLong = False, JSON = False, inuse = False, newsn = Some 1, oldsn = Some 1, hits = 0\<rparr>\<rparr>,
         [Verbosef ''Found matching entries in snapshot %s\<newline>'' [AID 101],
          FormatNodeCall ''/sub'' ?b False,
          Printf ''/sub/b.txt\<newline>'' []])"
    by code_simp
  from time_window_inclusive [OF h, where rec = "\<lambda>t p s. None" and prefix = "''/sub''"
          and nodes = "[]" and found = False and tr = "[]"] g
  have "findInTree_loop (\<lambda>t p s. None) ?env ''/sub'' [?b] False (finder0 False ?p, []) =
        (case Print ?env ''/sub'' ?b (out (finder0 False ?p), []) of
               (Some perr, s, tr') \<Rightarrow> Some (Some perr, True, ((finder0 False ?p)\<lparr>out := s\<rparr>, tr'))
             | (None, s, tr') \<Rightarrow>
                 findInTree_dir (\<lambda>t p s. None) ?env ''/sub'' ?b ?k True ((finder0 False ?p)\<lparr>out := s\<rparr>, tr'))"
    by (simp only: if_True)
  with pr h w show ?thesis by (simp only:)
qed

section \<open>Case folding\<close>

lemma runFind_pattern_fields:
  assumes "runFind_pattern env opts a = Inr p"
  shows "pattern p = (if CaseInsensitive opts then ToLower env a else a)"
    and "ignoreCase p = CaseInsensitive opts"
  using assms
  by (auto simp: runFind_pattern_def Let_def split: if_splits sum.splits)

text \<open>
  Claim C6. Name matching ignores case if and only if the flag is set. With the flag,
  the criteria built by \<^verbatim>\<open>runFind\<close> hold the lowercased pattern and every entry name
  is lowercased before it is matched; without it, pattern and name reach the matcher
  as they are.
\<close>

theorem case_folding_iff_flag:
  assumes "runFind_pattern env opts a = Inr p"
  shows "matchName env p node =
          (if CaseInsensitive opts then Match env (ToLower env a) (ToLower env (Name node))
           else Match env a (Name node))"
  using runFind_pattern_fields [OF assms]
  by (simp add: matchName_def)

text \<open>
  The pattern \<^verbatim>\<open>*.TXT\<close> matches the entry \<^verbatim>\<open>notes.txt\<close> with the flag, and does not
  match it without.
\<close>

theorem case_folding_iff_flag_witness:
  "runFind_pattern (env0 False [1]) (opts0\<lparr>CaseInsensitive := True\<rparr>) ''*.TXT''
     = Inr \<lparr>oldest = 0, newest = 0, pattern = ''*.txt'', ignoreCase = True\<rparr>
   \<and> matchName (env0 False [1]) \<lparr>oldest = 0, newest = 0, pattern = ''*.txt'', ignoreCase = True\<rparr>
        (fileNode ''notes.txt'' t_2020_01_01) = Inr True
   \<and> runFind_pattern (env0 False [1]) opts0 ''*.TXT''
     = Inr \<lparr>oldest = 0, newest = 0, pattern = ''*.TXT'', ignoreCase = False\<rparr>
   \<and> matchName (env0 False [1]) \<lparr>oldest = 0, newest = 0, pattern = ''*.TXT'', ignoreCase = False\<rparr>
        (fileNode ''notes.txt'' t_2020_01_01) = Inr False"
proof -
  let ?env = "env0 False [1]"
  have p1: "runFind_pattern ?env (opts0\<lparr>CaseInsensitive := True\<rparr>) ''*.TXT''
     = Inr \<lparr>oldest = 0, newest = 0, pattern = ''*.txt'', ignoreCase = True\<rparr>"
    by code_simp
  have p2: "runFind_pattern ?env opts0 ''*.TXT''
     = Inr \<lparr>oldest = 0, newest = 0, pattern = ''*.TXT'', ignoreCase = False\<rparr>"
    by code_simp
  have l1: "ToLower ?env ''*.TXT'' = ''*.txt''" by code_simp
  have l2: "ToLower ?env (Name (fileNode ''notes.txt'' t_2020_01_01)) = ''notes.txt''" by code_simp
  have n: "Name (fileNode ''notes.txt'' t_2020_01_01) = ''notes.txt''" by (simp add: fileNode_def)
  have m1: "Match ?env ''*.txt'' ''notes.txt'' = Inr True" by code_simp
  have m2: "Match ?env ''*.TXT'' ''notes.txt'' = Inr False" by code_simp
  have c1: "CaseInsensitive (opts0\<lparr>CaseInsensitive := True\<rparr>)" by simp
  have c2: "\<not> CaseInsensitive opts0" by (simp add: opts0_def)
  from case_folding_iff_flag [OF p1, of "fileNode ''notes.txt'' t_2020_01_01"]
  have r1: "matchName ?env \<lparr>oldest = 0, newest = 0, pattern = ''*.txt'', ignoreCase = True\<rparr>
        (fileNode ''notes.txt'' t_2020_01_01) = Inr True"
    unfolding l1 l2 m1 using c1 by (simp only: if_True)
  from case_folding_iff_flag [OF p2, of "fileNode ''notes.txt'' t_2020_01_01"]
  have r2: "matchName ?env \<lparr>oldest = 0, newest = 0, pattern = ''*.TXT'', ignoreCase = False\<rparr>
        (fileNode ''notes.txt'' t_2020_01_01) = Inr False"
    unfolding n m2 using c2 by (simp only: if_False)
  from p1 r1 p2 r2 show ?thesis by blast
qed

section \<open>A record that cannot be serialised\<close>

text \<open>
  Claim C8. When the structured serialisation of a record fails, the failure is
  reported as a warning and only that record is skipped: \<^verbatim>\<open>PrintJSON\<close> writes
  nothing to the result stream and leaves the sink, its hit counter included, as it
  was; the iteration goes on, into the entry if it is a directory and then to the
  next entries.
\<close>

theorem marshal_failure_skips_record:
  assumes "Marshal env (jsonValue env prefix node) = Inl err"
  shows "PrintJSON env prefix node (s, tr) =
           (s, tr @ [MarshalCall (jsonValue env prefix node), Warnf ''Marshall failed: %v\<newline>'' [AErr err]])
       \<and> (JSON (out f) \<and> matchName env (pat f) node = Inr True \<and> \<not> timeRejected (pat f) node \<longrightarrow>
          findInTree_loop rec env prefix (node # nodes) found (f, tr) =
          findInTree_dir rec env prefix node (findInTree_loop rec env prefix nodes) True
            (f, tr @ [MarshalCall (jsonValue env prefix node), Warnf ''Marshall failed: %v\<newline>'' [AErr err]]))"
proof -
  have P: "\<And>s tr. PrintJSON env prefix node (s, tr) =
           (s, tr @ [MarshalCall (jsonValue env prefix node), Warnf ''Marshall failed: %v\<newline>'' [AErr err]])"
    using assms by (simp add: PrintJSON_def jsonValue_def Let_def)
  show ?thesis
  proof (intro conjI impI)
    show "PrintJSON env prefix node (s, tr) =
           (s, tr @ [MarshalCall (jsonValue env prefix node), Warnf ''Marshall failed: %v\<newline>'' [AErr err]])"
      by (rule P)
  next
    assume a: "JSON (out f) \<and> matchName env (pat f) node = Inr True \<and> \<not> timeRejected (pat f) node"
    then have pr: "Print env prefix node (out f, tr) =
        (None, out f, tr @ [MarshalCall (jsonValue env prefix node), Warnf ''Marshall failed: %v\<newline>'' [AErr err]])"
      by (simp add: Print_def P)
    from a findInTree_loop_accepted [of env f node rec prefix nodes found tr]
    show "findInTree_loop rec env prefix (node # nodes) found (f, tr) =
          findInTree_dir rec env prefix node (findInTree_loop rec env prefix nodes) True
            (f, tr @ [MarshalCall (jsonValue env prefix node), Warnf ''Marshall failed: %v\<newline>'' [AErr err]])"
      by (simp add: pr)
  qed
qed

text \<open>
  The entry \<^verbatim>\<open>far.txt\<close>, modified in the year 10000, cannot be serialised; the entry
  \<^verbatim>\<open>b.txt\<close> after it is reported, as the first hit of its group.
\<close>

theorem marshal_failure_skips_record_witness:
  "Marshal (env0 True [1]) (jsonValue (env0 True [1]) ''/'' (fileNode ''far.txt'' t_10000_01_01))
     = Inl (ExtError ''json: error calling MarshalJSON for type time.Time'')
   \<and> findInTree_loop (\<lambda>t p s. None) (env0 True [1]) ''/''
        [fileNode ''far.txt'' t_10000_01_01, fileNode ''b.txt'' t_2021_06_01] False
        (finder0 True \<lparr>oldest = 0, newest = 0, pattern = ''*.txt'', ignoreCase = False\<rparr>, [])
     = Some (None, True,
        (finder0 True \<lparr>oldest = 0, newest = 0, pattern = ''*.txt'', ignoreCase = False\<rparr>)
           \<lparr>out := \<lparr>ListLong = False, JSON = True, inuse = True, newsn = Some 1, oldsn = Some 1, hits = 1\<rparr>\<rparr>,
        [MarshalCall (jsonValue (env0 True [1]) ''/'' (fileNode ''far.txt'' t_10000_01_01)),
         Warnf ''Marshall failed: %v\<newline>'' [AErr (ExtError ''json: error calling MarshalJSON for type time.Time'')],
         MarshalCall (jsonValue (env0 True [1]) ''/'' (fileNode ''b.txt'' t_2021_06_01)),
         Printf ''['' [],
         Printf fmt_group_begin [],
         Printf (jsonText ''/b.txt'' ''-rw-r--r--'') []])"
proof -
  let ?env = "env0 True [1]"
  let ?p = "\<lparr>oldest = 0, newest = 0, pattern = ''*.txt'', ignoreCase = False\<rparr>"
  let ?far = "fileNode ''far.txt'' t_10000_01_01"
  let ?w = "[MarshalCall (jsonValue ?env ''/'' ?far),
         Warnf ''Marshall failed: %v\<newline>'' [AErr (ExtError ''json: error calling MarshalJSON for type time.Time'')]]"
  let ?k = "findInTree_loop (\<lambda>t p s. None) ?env ''/'' [fileNode ''b.txt'' t_2021_06_01]"
  have h: "Marshal ?env (jsonValue ?env ''/'' ?far)
     = Inl (ExtError ''json: error calling MarshalJSON for type time.Time'')"
    by code_simp
  have g: "JSON (out (finder0 True ?p)) \<and> matchName ?env (pat (finder0 True ?p)) ?far = Inr True
       \<and> \<not> timeRejected (pat (finder0 True ?p)) ?far"
    by code_simp
  have rest: "findInTree_dir (\<lambda>t p s. None) ?env ''/'' ?far ?k True (finder0 True ?p, [] @ ?w)
     = Some (None, True,
        (finder0 True ?p)
           \<lparr>out := \<lparr>ListLong = False, JSON = True, inuse = True, newsn = Some 1, oldsn = Some 1, hits = 1\<rparr>\<rparr>,
        [MarshalCall (jsonValue ?env ''/'' ?far),
         Warnf ''Marshall failed: %v\<newline>'' [AErr (ExtError ''json: error calling MarshalJSON for type time.Time'')],
         MarshalCall (jsonValue ?env ''/'' (fileNode ''b.txt'' t_2021_06_01)),
         Printf ''['' [],
         Printf fmt_group_begin [],
         Printf (jsonText ''/b.txt'' ''-rw-r--r--'') []])"
    by code_simp
  from marshal_failure_skips_record [OF h, where f = "finder0 True ?p" and rec = "\<lambda>t p s. None"
      and nodes = "[fileNode ''b.txt'' t_2021_06_01]" and found = False and tr = "[]"] g
  have "findInTree_loop (\<lambda>t p s. None) ?env ''/'' [?far, fileNode ''b.txt'' t_2021_06_01] False
        (finder0 True ?p, []) =
        findInTree_dir (\<lambda>t p s. None) ?env ''/'' ?far ?k True (finder0 True ?p, [] @ ?w)"
    by blast
  with rest h show ?thesis by (simp only:)
qed

section \<open>A snapshot without matches\<close>

lemma quietRel_refl: "quietRel env st st"
  by (simp add: quietRel_def)

lemma quietRel_trans:
  assumes "quietRel env a b" and "quietRel env b c"
  shows "quietRel env a c"
proof (cases "newsn (out (fst a)) = None")
  case True
  then show ?thesis by (simp add: quietRel_def)
next
  case False
  with assms(1) obtain n1 where
    b1: "newsn (out (fst b)) = newsn (out (fst a))" and n1: "snd b = snd a @ n1"
    and q1: "(\<forall>ev \<in> set n1. \<not> isRecord env ev) \<longrightarrow> (\<forall>ev \<in> set n1. silent ev) \<and> out (fst b) = out (fst a)"
    by (auto simp: quietRel_def)
  from False b1 assms(2) obtain n2 where
    c1: "newsn (out (fst c)) = newsn (out (fst b))" and n2: "snd c = snd b @ n2"
    and q2: "(\<forall>ev \<in> set n2. \<not> isRecord env ev) \<longrightarrow> (\<forall>ev \<in> set n2. silent ev) \<and> out (fst c) = out (fst b)"
    by (auto simp: quietRel_def)
  have s: "snd c = snd a @ (n1 @ n2)" using n1 n2 by simp
  have q: "(\<forall>ev \<in> set (n1 @ n2). \<not> isRecord env ev) \<longrightarrow>
      (\<forall>ev \<in> set (n1 @ n2). silent ev) \<and> out (fst c) = out (fst a)"
    using q1 q2 by auto
  show ?thesis unfolding quietRel_def
  proof (intro impI conjI)
    show "newsn (out (fst c)) = newsn (out (fst a))" using b1 c1 by simp
    show "\<exists>new. snd c = snd a @ new \<and>
          ((\<forall>ev \<in> set new. \<not> isRecord env ev) \<longrightarrow>
             (\<forall>ev \<in> set new. silent ev) \<and> out (fst c) = out (fst a))"
      using s q by (intro exI [of _ "n1 @ n2"] conjI)
  qed
qed

lemma quietRel_Print:
  assumes "Print env prefix node (out f, tr) = (perr, s, tr')"
  shows "quietRel env (f, tr) (f\<lparr>out := s\<rparr>, tr')"
proof (cases "JSON (out f)")
  case True
  with assms have pj: "PrintJSON env prefix node (out f, tr) = (s, tr')"
    by (auto simp: Print_def split: prod.splits)
  from PrintJSON_cases [OF pj] show ?thesis
  proof
    assume "\<exists>err. Marshal env (jsonValue env prefix node) = Inl err \<and> s = out f
        \<and> tr' = tr @ [MarshalCall (jsonValue env prefix node), Warnf ''Marshall failed: %v\<newline>'' [AErr err]]"
    then show ?thesis by (auto simp: quietRel_def)
  next
    assume "\<exists>b mid. Marshal env (jsonValue env prefix node) = Inr b
        \<and> tr' = tr @ MarshalCall (jsonValue env prefix node) # mid @ [Printf b []]
        \<and> (\<forall>ev \<in> set mid. \<exists>fmt as. ev = Printf fmt as)
        \<and> inuse s \<and> oldsn s = newsn (out f) \<and> newsn s = newsn (out f)
        \<and> JSON s = JSON (out f) \<and> ListLong s = ListLong (out f)"
    then show ?thesis by (auto simp: quietRel_def)
  qed
next
  case False
  with assms have pn: "PrintNormal env prefix node (out f, tr) = (perr, s, tr')"
    by (simp add: Print_def)
  show ?thesis
  proof (cases "newsn (out f) = None")
    case True
    then show ?thesis by (simp add: quietRel_def)
  next
    case F: False
    from PrintNormal_cases [OF pn F] show ?thesis by (auto simp: quietRel_def)
  qed
qed

lemma findInTree_quiet:
  assumes "findInTree fuel env t prefix st = Some (r, st')"
  shows "quietRel env st st'"
proof (rule findInTree_rel [where R = "quietRel env" and Ip = "\<lambda>p. True", OF _ _ _ _ _ _ _ assms])
  show "\<And>st. quietRel env st st" by (rule quietRel_refl)
  show "\<And>a b c. quietRel env a b \<Longrightarrow> quietRel env b c \<Longrightarrow> quietRel env a c" by (rule quietRel_trans)
  show "\<And>prefix node f tr perr s tr'. True \<Longrightarrow> matchName env (pat f) node = Inr True \<Longrightarrow>
        Print env prefix node (out f, tr) = (perr, s, tr') \<Longrightarrow> quietRel env (f, tr) (f\<lparr>out := s\<rparr>, tr')"
    by (rule quietRel_Print)
  show "\<And>f tr t. t \<notin> notfound f \<Longrightarrow> quietRel env (f, tr) (f, tr @ [LoadTreeCall t])"
    by (simp add: quietRel_def)
  show "\<And>f tr t. quietRel env (f, tr) (f\<lparr>notfound := insert t (notfound f)\<rparr>, tr)"
    by (simp add: quietRel_def)
qed simp_all

text \<open>
  Claim C9. The search of a snapshot that emits no match (no renderer is called with
  success for any entry) writes nothing to the result stream and nothing to the
  verbose stream, in either mode, and leaves the sink as it was but for the snapshot
  being searched: the previous snapshot, the hit counter and the flag of the open
  document are unchanged. The sink advances only inside a call of \<^verbatim>\<open>Print\<close>.
\<close>

theorem no_match_no_output:
  assumes "findInSnapshot fuel env sn (f, tr) = Some (r, (f', tr'))"
  shows "\<exists>new. tr' = tr @ new \<and>
          ((\<forall>ev \<in> set new. \<not> isRecord env ev) \<longrightarrow>
             (\<forall>ev \<in> set new. silent ev) \<and> out f' = (out f)\<lparr>newsn := Some sn\<rparr>)"
proof (cases "Tree (deref env sn)")
  case None
  with assms show ?thesis by (auto simp: findInSnapshot_def)
next
  case (Some root)
  with assms have
    "findInTree fuel env root [Separator env] (f\<lparr>out := (out f)\<lparr>newsn := Some sn\<rparr>\<rparr>, tr) = Some (r, (f', tr'))"
    by (simp add: findInSnapshot_def)
  from findInTree_quiet [OF this] show ?thesis
    by (simp add: quietRel_def)
qed

text \<open>
  The search of snapshot 1 for \<^verbatim>\<open>*.go\<close>, after a group of three hits of another
  snapshot: two trees are loaded, nothing is written, and the sink still holds the
  open group of the other snapshot.
\<close>

theorem no_match_no_output_witness:
  "findInSnapshot 3 (env0 True [1]) 1
      (\<lparr>pat = \<lparr>oldest = 0, newest = 0, pattern = ''*.go'', ignoreCase = False\<rparr>,
        out = \<lparr>ListLong = False, JSON = True, inuse = True, newsn = Some 7, oldsn = Some 7, hits = 3\<rparr>,
        notfound = {}\<rparr>, [])
    = Some (None,
        \<lparr>pat = \<lparr>oldest = 0, newest = 0, pattern = ''*.go'', ignoreCase = False\<rparr>,
         out = \<lparr>ListLong = False, JSON = True, inuse = True, newsn = Some 1, oldsn = Some 7, hits = 3\<rparr>,
         notfound = {1, 2}\<rparr>,
        [LoadTreeCall 1, LoadTreeCall 2])
   \<and> list_all (\<lambda>ev. \<not> isRecord (env0 True [1]) ev) [LoadTreeCall 1, LoadTreeCall 2]
   \<and> list_all silent [LoadTreeCall 1, LoadTreeCall 2]"
proof -
  let ?env = "env0 True [1]"
  let ?f0 = "\<lparr>pat = \<lparr>oldest = 0, newest = 0, pattern = ''*.go'', ignoreCase = False\<rparr>,
        out = \<lparr>ListLong = False, JSON = True, inuse = True, newsn = Some 7, oldsn = Some 7, hits = 3\<rparr>,
        notfound = {}\<rparr>"
  let ?f1 = "\<lparr>pat = \<lparr>oldest = 0, newest = 0, pattern = ''*.go'', ignoreCase = False\<rparr>,
         out = \<lparr>ListLong = False, JSON = True, inuse = True, newsn = Some 1, oldsn = Some 7, hits = 3\<rparr>,
         notfound = {1, 2}\<rparr>"
  have r: "findInSnapshot 3 ?env 1 (?f0, []) = Some (None, (?f1, [LoadTreeCall 1, LoadTreeCall 2]))"
    by code_simp
  have n: "\<forall>ev \<in> set [LoadTreeCall 1, LoadTreeCall 2]. \<not> isRecord ?env ev" by simp
  from no_match_no_output [OF r] n
  have "\<forall>ev \<in> set [LoadTreeCall 1, LoadTreeCall 2]. silent ev" by simp
  with r n show ?thesis unfolding list_all_iff by blast
qed

section \<open>Absolute paths\<close>

lemma rootedRel_trans: "rootedRel env a b \<Longrightarrow> rootedRel env b c \<Longrightarrow> rootedRel env a c"
  unfolding rootedRel_def
proof -
  assume "\<exists>new. snd b = snd a @ new \<and> (\<forall>ev \<in> set new. pathRooted env ev)"
    and "\<exists>new. snd c = snd b @ new \<and> (\<forall>ev \<in> set new. pathRooted env ev)"
  then obtain n1 n2 where "snd b = snd a @ n1" "\<forall>ev \<in> set n1. pathRooted env ev"
    "snd c = snd b @ n2" "\<forall>ev \<in> set n2. pathRooted env ev" by blast
  then have "snd c = snd a @ (n1 @ n2) \<and> (\<forall>ev \<in> set (n1 @ n2). pathRooted env ev)" by auto
  then show "\<exists>new. snd c = snd a @ new \<and> (\<forall>ev \<in> set new. pathRooted env ev)" by blast
qed

lemma rootedRel_Print:
  assumes "rooted env prefix" and "rooted env (Join env prefix (Name node))"
    and "Print env prefix node (out f, tr) = (perr, s, tr')"
  shows "rootedRel env (f, tr) (f\<lparr>out := s\<rparr>, tr')"
  using assms
  by (auto simp: rootedRel_def Print_def PrintJSON_def PrintNormal_def Let_def
      split: if_splits sum.splits option.splits prod.splits)

text \<open>
  Claim C10. Every emitted path is absolute. The traversal of a snapshot starts with
  the separator as prefix and every recursion joins the name of the directory to
  the prefix, so every record handed to a renderer has a prefix, and a full path
  (the join of prefix and name), that begins with the separator, \<^verbatim>\<open>filepath.Join\<close>
  keeping a path that begins with the separator beginning with it.
\<close>

theorem emitted_paths_absolute:
  assumes jkr: "joinKeepsRoot env"
    and run: "findInSnapshot fuel env sn (f, tr) = Some (r, (f', tr'))"
  shows "\<exists>new. tr' = tr @ new \<and>
          (\<forall>ev \<in> set new.
             (\<forall>v. ev = MarshalCall v \<longrightarrow> rooted env (Path v)) \<and>
             (\<forall>prefix node long. ev = FormatNodeCall prefix node long \<longrightarrow>
                 rooted env prefix \<and> rooted env (Join env prefix (Name node))))"
proof (cases "Tree (deref env sn)")
  case None
  with run show ?thesis by (auto simp: findInSnapshot_def)
next
  case (Some root)
  from jkr have join: "\<forall>p n. rooted env p \<longrightarrow> rooted env (Join env p n)"
    by (simp add: joinKeepsRoot_def)
  from Some run have ft:
    "findInTree fuel env root [Separator env] (f\<lparr>out := (out f)\<lparr>newsn := Some sn\<rparr>\<rparr>, tr) = Some (r, (f', tr'))"
    by (simp add: findInSnapshot_def)
  have "rootedRel env (f\<lparr>out := (out f)\<lparr>newsn := Some sn\<rparr>\<rparr>, tr) (f', tr')"
  proof (rule findInTree_rel [where R = "rootedRel env" and Ip = "rooted env", OF _ _ _ _ _ _ _ ft])
    show "\<And>st. rootedRel env st st" by (simp add: rootedRel_def)
    show "\<And>a b c. rootedRel env a b \<Longrightarrow> rootedRel env b c \<Longrightarrow> rootedRel env a c"
      by (rule rootedRel_trans)
    show "\<And>prefix node f tr perr s tr'. rooted env prefix \<Longrightarrow> matchName env (pat f) node = Inr True \<Longrightarrow>
        Print env prefix node (out f, tr) = (perr, s, tr') \<Longrightarrow> rootedRel env (f, tr) (f\<lparr>out := s\<rparr>, tr')"
      using join rootedRel_Print by blast
    show "\<And>prefix n. rooted env prefix \<Longrightarrow> rooted env (Join env prefix n)" using join by blast
    show "\<And>f tr t. t \<notin> notfound f \<Longrightarrow> rootedRel env (f, tr) (f, tr @ [LoadTreeCall t])"
      by (simp add: rootedRel_def)
    show "\<And>f tr t. rootedRel env (f, tr) (f\<lparr>notfound := insert t (notfound f)\<rparr>, tr)"
      by (simp add: rootedRel_def)
    show "rooted env [Separator env]" by (simp add: rooted_def)
  qed
  then obtain new where n: "tr' = tr @ new" "\<forall>ev \<in> set new. pathRooted env ev"
    by (auto simp: rootedRel_def)
  have "\<forall>ev \<in> set new.
             (\<forall>v. ev = MarshalCall v \<longrightarrow> rooted env (Path v)) \<and>
             (\<forall>prefix node long. ev = FormatNodeCall prefix node long \<longrightarrow>
                 rooted env prefix \<and> rooted env (Join env prefix (Name node)))"
    using n(2) by auto
  with n(1) show ?thesis by blast
qed

lemma go_Join_rooted:
  assumes "p \<noteq> []" and "hd p = CHR ''/''"
  shows "go_Join p n \<noteq> [] \<and> hd (go_Join p n) = CHR ''/''"
  using assms by (cases p) (simp_all add: go_Join_def go_Clean_def Let_def)

lemma env0_joinKeepsRoot: "joinKeepsRoot (env0 json sns)"
  using go_Join_rooted by (simp add: joinKeepsRoot_def rooted_def env0_def)

text \<open>The two records of snapshot 1 have the paths \<^verbatim>\<open>/a.txt\<close> and \<^verbatim>\<open>/sub/b.txt\<close>.\<close>

theorem emitted_paths_absolute_witness:
  "joinKeepsRoot (env0 True [1])
   \<and> findInSnapshot 3 (env0 True [1]) 1
        (finder0 True \<lparr>oldest = 0, newest = 0, pattern = ''*.txt'', ignoreCase = False\<rparr>, [])
      = Some (None,
          \<lparr>pat = \<lparr>oldest = 0, newest = 0, pattern = ''*.txt'', ignoreCase = False\<rparr>,
           out = \<lparr>ListLong = False, JSON = True, inuse = True, newsn = Some 1, oldsn = Some 1, hits = 2\<rparr>,
           notfound = {}\<rparr>,
          [LoadTreeCall 1,
           MarshalCall \<lparr>Path = ''/a.txt'', Permissions = ''-rw-r--r--'', findNode = fileNode ''a.txt'' t_2020_01_01\<rparr>,
           Printf ''['' [], Printf fmt_group_begin [],
           Printf (jsonText ''/a.txt'' ''-rw-r--r--'') [],
           LoadTreeCall 2,
           MarshalCall \<lparr>Path = ''/sub/b.txt'', Permissions = ''-rw-r--r--'', findNode = fileNode ''b.txt'' t_2021_06_01\<rparr>,
           Printf '','' [],
           Printf (jsonText ''/sub/b.txt'' ''-rw-r--r--'') []])
   \<and> rooted (env0 True [1]) ''/a.txt'' \<and> rooted (env0 True [1]) ''/sub/b.txt''"
proof -
  let ?env = "env0 True [1]"
  let ?tr = "[LoadTreeCall 1,
           MarshalCall \<lparr>Path = ''/a.txt'', Permissions = ''-rw-r--r--'', findNode = fileNode ''a.txt'' t_2020_01_01\<rparr>,
           Printf ''['' [], Printf fmt_group_begin [],
           Printf (jsonText ''/a.txt'' ''-rw-r--r--'') [],
           LoadTreeCall 2,
           MarshalCall \<lparr>Path = ''/sub/b.txt'', Permissions = ''-rw-r--r--'', findNode = fileNode ''b.txt'' t_2021_06_01\<rparr>,
           Printf '','' [],
           Printf (jsonText ''/sub/b.txt'' ''-rw-r--r--'') []]"
  have j: "joinKeepsRoot ?env" by (rule env0_joinKeepsRoot)
  have r: "findInSnapshot 3 ?env 1
        (finder0 True \<lparr>oldest = 0, newest = 0, pattern = ''*.txt'', ignoreCase = False\<rparr>, [])
      = Some (None,
          \<lparr>pat = \<lparr>oldest = 0, newest = 0, pattern = ''*.txt'', ignoreCase = False\<rparr>,
           out = \<lparr>ListLong = False, JSON = True, inuse = True, newsn = Some 1, oldsn = Some 1, hits = 2\<rparr>,
           notfound = {}\<rparr>, ?tr)"
    by code_simp
  from emitted_paths_absolute [OF j r]
  have "\<forall>ev \<in> set ?tr. (\<forall>v. ev = MarshalCall v \<longrightarrow> rooted ?env (Path v))" by simp
  then have "rooted ?env ''/a.txt'' \<and> rooted ?env ''/sub/b.txt''" by simp
  with j r show ?thesis by blast
qed

section \<open>The structured document\<close>

lemma records_append: "records env (a @ b) = records env a @ records env b"
  by (induction env a rule: records.induct) (auto split: sum.splits)

lemma grouped_snoc: "grouped (hs @ [h]) = addHit (grouped hs) h"
  by (simp add: grouped_def)

lemma grouped_last:
  "hs \<noteq> [] \<Longrightarrow> grouped hs \<noteq> [] \<and> fst (last (grouped hs)) = fst (last hs)
      \<and> snd (last (grouped hs)) \<noteq> [] \<and> length (snd (last (grouped hs))) \<le> length hs"
proof (induction hs rule: rev_induct)
  case Nil
  then show ?case by simp
next
  case (snoc h hs)
  show ?case
  proof (cases "hs = []")
    case True
    then show ?thesis by (simp add: grouped_def addHit_def)
  next
    case False
    with snoc.IH show ?thesis by (auto simp: grouped_snoc addHit_def)
  qed
qed

lemma grouped_Nil: "(grouped hs = []) = (hs = [])"
  using grouped_last [of hs] by (cases "hs = []") (simp_all add: grouped_def)

lemma body_snoc: "bs \<noteq> [] \<Longrightarrow> body (bs @ [b]) = body bs @ [Printf '','' [], Printf b []]"
  by (induction bs rule: body.induct) simp_all

lemma sint_small: "n < 2 ^ 63 \<Longrightarrow> sint (of_nat n :: 64 word) = int n"
proof -
  assume "n < 2 ^ 63"
  then have "int n < 2 ^ 63" by (metis of_nat_less_iff of_nat_numeral of_nat_power)
  then have "signed_take_bit 63 (int n) = int n"
    by (intro signed_take_bit_int_eq_self) simp_all
  then show ?thesis by (simp add: signed_of_nat)
qed

lemma unfinished_first: "unfinished env [(sn, [b])] = [Printf ''['' [], groupOpen, Printf b []]"
  by (simp add: unfinished_def)

lemma unfinished_same:
  assumes "gs \<noteq> []" and "snd (last gs) \<noteq> []"
  shows "unfinished env (butlast gs @ [(fst (last gs), snd (last gs) @ [b])])
          = unfinished env gs @ [Printf '','' [], Printf b []]"
  using assms by (simp add: unfinished_def body_snoc)

lemma unfinished_new:
  assumes "gs \<noteq> []"
  shows "unfinished env (gs @ [(sn, [b])])
          = unfinished env gs @ [groupClose env (last gs) '','', groupOpen, Printf b []]"
proof -
  from assms have "gs = butlast gs @ [last gs]" by simp
  then have "concat (map (closedGroup env) gs)
      = concat (map (closedGroup env) (butlast gs)) @ closedGroup env (last gs)"
    by (metis concat.simps(1,2) concat_append list.simps(8,9) map_append append_Nil2)
  with assms show ?thesis by (simp add: unfinished_def closedGroup_def)
qed

lemma PrintJSON_failed:
  assumes "Marshal env (jsonValue env prefix node) = Inl err"
  shows "PrintJSON env prefix node (s, tr) =
          (s, tr @ [MarshalCall (jsonValue env prefix node), Warnf ''Marshall failed: %v\<newline>'' [AErr err]])"
  using assms by (simp add: PrintJSON_def jsonValue_def Let_def)

lemma PrintJSON_first:
  assumes "Marshal env (jsonValue env prefix node) = Inr b"
    and "\<not> inuse s" and "oldsn s = None" and "newsn s = Some sn"
  shows "PrintJSON env prefix node (s, tr) =
          (s\<lparr>inuse := True, oldsn := Some sn, hits := 1\<rparr>,
           tr @ [MarshalCall (jsonValue env prefix node), Printf ''['' [], groupOpen, Printf b []])"
  using assms
  by (simp add: PrintJSON_def jsonValue_def Let_def groupOpen_def fmt_group_begin_def dq_def)

lemma PrintJSON_same:
  assumes "Marshal env (jsonValue env prefix node) = Inr b"
    and "inuse s" and "oldsn s = Some sn" and "newsn s = Some sn" and "0 < sint (hits s)"
  shows "PrintJSON env prefix node (s, tr) =
          (s\<lparr>hits := hits s + 1\<rparr>,
           tr @ [MarshalCall (jsonValue env prefix node), Printf '','' [], Printf b []])"
  using assms
  by (simp add: PrintJSON_def jsonValue_def Let_def)

lemma PrintJSON_next:
  assumes "Marshal env (jsonValue env prefix node) = Inr b"
    and "inuse s" and "oldsn s = Some p" and "newsn s = Some sn" and "p \<noteq> sn"
    and "hits s = of_nat (length bs)"
  shows "PrintJSON env prefix node (s, tr) =
          (s\<lparr>oldsn := Some sn, hits := 1\<rparr>,
           tr @ [MarshalCall (jsonValue env prefix node), groupClose env (p, bs) '','', groupOpen,
                 Printf b []])"
  using assms
  by (simp add: PrintJSON_def jsonValue_def Let_def groupOpen_def groupClose_def
      fmt_group_begin_def fmt_group_end_def dq_def)

lemma PrintJSON_doc:
  assumes inv: "docInv env hs (s, tr)" and n: "newsn s = Some sn"
    and pj: "PrintJSON env prefix node (s, tr) = (s', tr')" and small: "length tr' < 2 ^ 63"
  shows "\<exists>new. tr' = tr @ new \<and> newsn s' = Some sn \<and> JSON s' = JSON s
           \<and> docInv env (hs @ map (Pair sn) (records env new)) (s', tr')"
proof (cases "Marshal env (jsonValue env prefix node)")
  case (Inl err)
  let ?new = "[MarshalCall (jsonValue env prefix node), Warnf ''Marshall failed: %v\<newline>'' [AErr err]]"
  from PrintJSON_failed [OF Inl] pj have r: "s' = s" "tr' = tr @ ?new" by simp_all
  have "records env ?new = []" using Inl by simp
  with inv r n show ?thesis by (auto simp: docInv_def)
next
  case (Inr b)
  let ?v = "jsonValue env prefix node"
  let ?gs = "grouped hs"
  have rec: "records env (MarshalCall ?v # map (\<lambda>(f, a). Printf f a) xs) = [b]" for xs
    using Inr by (induction xs) auto
  show ?thesis
  proof (cases "hs = []")
    case True
    with inv have s: "\<not> inuse s" "oldsn s = None" "filter isPrintf tr = []"
      by (simp_all add: docInv_def unfinished_def grouped_def)
    let ?new = "[MarshalCall ?v, Printf ''['' [], groupOpen, Printf b []]"
    from PrintJSON_first [OF Inr s(1,2) n] pj
    have r: "s' = s\<lparr>inuse := True, oldsn := Some sn, hits := 1\<rparr>" "tr' = tr @ ?new" by simp_all
    have "records env ?new = [b]" using Inr by (simp add: groupOpen_def)
    moreover have "docInv env [(sn, b)] (s', tr')"
      using r s by (simp add: docInv_def grouped_def addHit_def unfinished_first groupOpen_def)
    ultimately show ?thesis using r True n by auto
  next
    case False
    from grouped_last [OF False] have g: "?gs \<noteq> []" "fst (last ?gs) = fst (last hs)"
      "snd (last ?gs) \<noteq> []" "length (snd (last ?gs)) \<le> length hs" by simp_all
    from inv False have s: "inuse s" "oldsn s = Some (fst (last hs))"
      "filter isPrintf tr = unfinished env ?gs"
      "hits s = of_nat (length (snd (last ?gs)))" "length hs \<le> length tr"
      by (simp_all add: docInv_def)
    show ?thesis
    proof (cases "fst (last hs) = sn")
      case True
      let ?new = "[MarshalCall ?v, Printf '','' [], Printf b []]"
      have "length (snd (last ?gs)) < 2 ^ 63"
      proof -
        have "length tr \<le> length tr'"
          using pj Inr by (auto simp: PrintJSON_def jsonValue_def Let_def split: if_splits option.splits)
        with g(4) s(5) small show ?thesis by simp
      qed
      then have "sint (hits s) = int (length (snd (last ?gs)))"
        unfolding s(4) by (rule sint_small)
      with g(3) have pos: "0 < sint (hits s)" by simp
      from PrintJSON_same [OF Inr s(1) s(2) [unfolded True] n pos] pj
      have r: "s' = s\<lparr>hits := hits s + 1\<rparr>" "tr' = tr @ ?new" by simp_all
      have rn: "records env ?new = [b]" using Inr by simp
      have gr: "grouped (hs @ [(sn, b)]) = butlast ?gs @ [(fst (last ?gs), snd (last ?gs) @ [b])]"
        using g True by (simp add: grouped_snoc addHit_def)
      have "docInv env (hs @ [(sn, b)]) (s', tr')"
        unfolding docInv_def gr r
        using s g True unfinished_same [OF g(1) g(3), of env b]
        by simp
      with r rn n show ?thesis by auto
    next
      case F: False
      let ?new = "[MarshalCall ?v, groupClose env (last ?gs) '','', groupOpen, Printf b []]"
      have lg: "last ?gs = (fst (last hs), snd (last ?gs))" using g(2) by (cases "last ?gs") simp
      from PrintJSON_next [OF Inr s(1) s(2) n F s(4)] pj lg
      have r: "s' = s\<lparr>oldsn := Some sn, hits := 1\<rparr>" "tr' = tr @ ?new" by simp_all
      have rn: "records env ?new = [b]" using Inr by (simp add: groupOpen_def groupClose_def)
      have gr: "grouped (hs @ [(sn, b)]) = ?gs @ [(sn, [b])]"
        using g F by (simp add: grouped_snoc addHit_def)
      have "docInv env (hs @ [(sn, b)]) (s', tr')"
        unfolding docInv_def gr r
        using s g unfinished_new [OF g(1), of env sn b]
        by (simp add: groupOpen_def groupClose_def)
      with r rn n show ?thesis by auto
    qed
  qed
qed

lemma docRel_trans: "docRel env a b \<Longrightarrow> docRel env b c \<Longrightarrow> docRel env a c"
proof (cases "JSON (out (fst a))")
  case False
  then show ?thesis by (simp add: docRel_def)
next
  case True
  assume ab: "docRel env a b" and bc: "docRel env b c"
  from ab True obtain n1 where 1: "JSON (out (fst b))" "newsn (out (fst b)) = newsn (out (fst a))"
    "snd b = snd a @ n1"
    "\<And>sn hs. newsn (out (fst a)) = Some sn \<Longrightarrow> docInv env hs (out (fst a), snd a)
        \<Longrightarrow> length (snd b) < 2 ^ 63
        \<Longrightarrow> docInv env (hs @ map (Pair sn) (records env n1)) (out (fst b), snd b)"
    unfolding docRel_def by blast
  from bc 1(1) obtain n2 where 2: "JSON (out (fst c))" "newsn (out (fst c)) = newsn (out (fst b))"
    "snd c = snd b @ n2"
    "\<And>sn hs. newsn (out (fst b)) = Some sn \<Longrightarrow> docInv env hs (out (fst b), snd b)
        \<Longrightarrow> length (snd c) < 2 ^ 63
        \<Longrightarrow> docInv env (hs @ map (Pair sn) (records env n2)) (out (fst c), snd c)"
    unfolding docRel_def by blast
  have step: "docInv env (hs @ map (Pair sn) (records env (n1 @ n2))) (out (fst c), snd c)"
    if "newsn (out (fst a)) = Some sn" "docInv env hs (out (fst a), snd a)" "length (snd c) < 2 ^ 63"
    for sn hs
  proof -
    from that(3) 2(3) have "length (snd b) < 2 ^ 63" by simp
    from 1(4) [OF that(1,2) this]
    have "docInv env (hs @ map (Pair sn) (records env n1)) (out (fst b), snd b)" .
    from 2(4) [OF _ this that(3)] 1(2) that(1) show ?thesis by (simp add: records_append)
  qed
  have app: "snd c = snd a @ (n1 @ n2)" using 1(3) 2(3) by simp
  have "\<exists>new. snd c = snd a @ new \<and>
          (\<forall>sn hs. newsn (out (fst a)) = Some sn \<and> docInv env hs (out (fst a), snd a)
                     \<and> length (snd c) < 2 ^ 63
             \<longrightarrow> docInv env (hs @ map (Pair sn) (records env new)) (out (fst c), snd c))"
    by (rule exI [of _ "n1 @ n2"]) (use app step in blast)
  then show ?thesis using 1(2) 2(1,2) by (simp add: docRel_def)
qed

lemma docRel_Print:
  assumes "Print env prefix node (out f, tr) = (perr, s, tr')"
  shows "docRel env (f, tr) (f\<lparr>out := s\<rparr>, tr')"
proof (cases "JSON (out f)")
  case False
  then show ?thesis by (simp add: docRel_def)
next
  case True
  with assms have pj: "PrintJSON env prefix node (out f, tr) = (s, tr')"
    by (auto simp: Print_def split: prod.splits)
  have g: "\<exists>new. tr' = tr @ new" "JSON s" "newsn s = newsn (out f)"
    using pj True by (auto simp: PrintJSON_def Let_def split: sum.splits if_splits option.splits)
  then obtain new where new: "tr' = tr @ new" by blast
  have "docInv env (hs @ map (Pair sn) (records env new)) (s, tr')"
    if "newsn (out f) = Some sn" "docInv env hs (out f, tr)" "length tr' < 2 ^ 63" for sn hs
    using PrintJSON_doc [OF that(2) that(1) pj that(3)] new by auto
  with g new True show ?thesis unfolding docRel_def by auto
qed

lemma findInTree_docRel:
  assumes "findInTree fuel env t prefix st = Some (r, st')"
  shows "docRel env st st'"
proof (rule findInTree_rel [where R = "docRel env" and Ip = "\<lambda>p. True", OF _ _ _ _ _ _ _ assms])
  show "\<And>st. docRel env st st" by (auto simp: docRel_def)
  show "\<And>a b c. docRel env a b \<Longrightarrow> docRel env b c \<Longrightarrow> docRel env a c" by (rule docRel_trans)
  show "\<And>prefix node f tr perr s tr'. True \<Longrightarrow> matchName env (pat f) node = Inr True \<Longrightarrow>
        Print env prefix node (out f, tr) = (perr, s, tr') \<Longrightarrow> docRel env (f, tr) (f\<lparr>out := s\<rparr>, tr')"
    by (rule docRel_Print)
  show "\<And>f tr t. t \<notin> notfound f \<Longrightarrow> docRel env (f, tr) (f, tr @ [LoadTreeCall t])"
    by (auto simp: docRel_def docInv_def)
  show "\<And>f tr t. docRel env (f, tr) (f\<lparr>notfound := insert t (notfound f)\<rparr>, tr)"
    by (auto simp: docRel_def)
qed simp_all

lemma Print_grows: "Print env prefix node (s, tr) = (perr, s', tr') \<Longrightarrow> \<exists>new. tr' = tr @ new"
  by (auto simp: Print_def PrintJSON_def PrintNormal_def Let_def
      split: if_splits sum.splits option.splits prod.splits)

lemma findInTree_grows:
  assumes "findInTree fuel env t prefix st = Some (r, st')"
  shows "growRel st st'"
proof (rule findInTree_rel [where R = growRel and Ip = "\<lambda>p. True", OF _ _ _ _ _ _ _ assms])
  show "\<And>prefix node f tr perr s tr'. True \<Longrightarrow> matchName env (pat f) node = Inr True \<Longrightarrow>
        Print env prefix node (out f, tr) = (perr, s, tr') \<Longrightarrow> growRel (f, tr) (f\<lparr>out := s\<rparr>, tr')"
    using Print_grows by (simp add: growRel_def)
qed (auto simp: growRel_def)

lemma findInSnapshot_grows:
  assumes "findInSnapshot fuel env sn (f, tr) = Some (r, (f', tr'))"
  shows "\<exists>new. tr' = tr @ new"
proof (cases "Tree (deref env sn)")
  case None
  with assms show ?thesis by (simp add: findInSnapshot_def)
next
  case (Some root)
  with assms have
    "findInTree fuel env root [Separator env] (f\<lparr>out := (out f)\<lparr>newsn := Some sn\<rparr>\<rparr>, tr) = Some (r, (f', tr'))"
    by (simp add: findInSnapshot_def)
  from findInTree_grows [OF this] show ?thesis by (simp add: growRel_def)
qed

lemma runFind_loop_grows:
  "runFind_loop fuel env sns (f, tr) = Some (r, (f', tr')) \<Longrightarrow> \<exists>new. tr' = tr @ new"
proof (induction sns arbitrary: f tr)
  case Nil
  then show ?case by simp
next
  case (Cons sn sns)
  from Cons.prems obtain r1 f1 tr1 where
    s1: "findInSnapshot fuel env sn (f, tr) = Some (r1, (f1, tr1))"
    by (auto split: option.splits)
  from findInSnapshot_grows [OF s1] obtain n1 where n1: "tr1 = tr @ n1" by blast
  show ?case
  proof (cases r1)
    case (Some e)
    with Cons.prems s1 n1 show ?thesis by auto
  next
    case None
    with Cons.prems s1 have "runFind_loop fuel env sns (f1, tr1) = Some (r, (f', tr'))" by simp
    from Cons.IH [OF this] n1 show ?thesis by auto
  qed
qed

lemma docInv_newsn: "docInv env hs (s\<lparr>newsn := x\<rparr>, tr) = docInv env hs (s, tr)"
  by (simp add: docInv_def)

lemma findInSnapshot_doc:
  assumes run: "findInSnapshot fuel env sn (f, tr) = Some (r, (f', tr'))"
    and json: "JSON (out f)" and inv: "docInv env hs (out f, tr)" and small: "length tr' < 2 ^ 63"
  shows "JSON (out f')
       \<and> docInv env (hs @ map (Pair sn) (records env (drop (length tr) tr'))) (out f', tr')"
proof (cases "Tree (deref env sn)")
  case None
  with run have "f' = f\<lparr>out := (out f)\<lparr>newsn := Some sn\<rparr>\<rparr>" "tr' = tr"
    by (simp_all add: findInSnapshot_def)
  with json inv show ?thesis by (simp add: docInv_newsn)
next
  case (Some root)
  let ?f = "f\<lparr>out := (out f)\<lparr>newsn := Some sn\<rparr>\<rparr>"
  from Some run have ft: "findInTree fuel env root [Separator env] (?f, tr) = Some (r, (f', tr'))"
    by (simp add: findInSnapshot_def)
  have i: "docInv env hs (out ?f, tr)" using inv by (simp add: docInv_newsn)
  from findInTree_docRel [OF ft] json
  have "\<exists>new. tr' = tr @ new \<and> JSON (out f') \<and>
          (docInv env hs (out ?f, tr) \<and> length tr' < 2 ^ 63
             \<longrightarrow> docInv env (hs @ map (Pair sn) (records env new)) (out f', tr'))"
    unfolding docRel_def by auto
  with i small show ?thesis by auto
qed

lemma runFind_loop_doc:
  "runFind_loop fuel env sns (f, tr) = Some (r, (f', tr')) \<Longrightarrow> JSON (out f) \<Longrightarrow> docInv env hs (out f, tr)
    \<Longrightarrow> length tr' < 2 ^ 63
    \<Longrightarrow> JSON (out f') \<and> docInv env (hs @ hitsOf fuel env sns (f, tr)) (out f', tr')
        \<and> map snd (hitsOf fuel env sns (f, tr)) = records env (drop (length tr) tr')"
proof (induction sns arbitrary: f tr hs)
  case Nil
  then show ?case by simp
next
  case (Cons sn sns)
  from Cons.prems(1) obtain r1 f1 tr1 where
    s1: "findInSnapshot fuel env sn (f, tr) = Some (r1, (f1, tr1))"
    by (auto split: option.splits)
  from findInSnapshot_grows [OF s1] obtain n1 where n1: "tr1 = tr @ n1" by blast
  show ?case
  proof (cases r1)
    case (Some e)
    with Cons.prems(1) s1 have res: "r = Some e" "f' = f1" "tr' = tr1" by simp_all
    from findInSnapshot_doc [OF s1 Cons.prems(2,3)] Cons.prems(4) res
    have "JSON (out f1)"
      "docInv env (hs @ map (Pair sn) (records env (drop (length tr) tr1))) (out f1, tr1)" by simp_all
    with s1 Some res show ?thesis by (simp add: comp_def)
  next
    case None
    with Cons.prems(1) s1 have rest: "runFind_loop fuel env sns (f1, tr1) = Some (r, (f', tr'))" by simp
    from runFind_loop_grows [OF rest] obtain n2 where n2: "tr' = tr1 @ n2" by blast
    with Cons.prems(4) have small1: "length tr1 < 2 ^ 63" by simp
    from findInSnapshot_doc [OF s1 Cons.prems(2,3) small1]
    have i1: "JSON (out f1)"
      "docInv env (hs @ map (Pair sn) (records env (drop (length tr) tr1))) (out f1, tr1)"
      by simp_all
    from Cons.IH [OF rest i1 Cons.prems(4)]
    have "JSON (out f')" "docInv env ((hs @ map (Pair sn) (records env (drop (length tr) tr1))) @ hitsOf fuel env sns (f1, tr1))
            (out f', tr')"
      "map snd (hitsOf fuel env sns (f1, tr1)) = records env (drop (length tr1) tr')"
      by simp_all
    with s1 None n1 n2 show ?thesis by (simp add: comp_def records_append)
  qed
qed

text \<open>
  Claim C7. In structured mode, let the snapshots be searched from the initial sink,
  and let the hits be the records emitted, each with the snapshot that was being
  searched. The records of the hits are the records of the trace; what was written
  to the result stream is the unfinished document of the groups of the hits; and
  \<^verbatim>\<open>Finish\<close> writes what is left of it. So when no record was emitted nothing was
  written and \<^verbatim>\<open>Finish\<close> writes exactly the empty array, and otherwise \<^verbatim>\<open>Finish\<close>
  closes the last group, with the number of its records and the identifier of its
  snapshot, and then the array. The counter of the sink is a machine integer: the
  trace is taken shorter than \<open>2\<^sup>6\<^sup>3\<close> events.
\<close>

theorem finish_closes_document:
  assumes run: "runFind_loop fuel env sns (f0, []) = Some (r, (f, tr))"
    and init: "JSON (out f0)" "\<not> inuse (out f0)" "oldsn (out f0) = None"
    and small: "length tr < 2 ^ 63"
  shows "map snd (hitsOf fuel env sns (f0, [])) = records env tr
       \<and> filter isPrintf tr = unfinished env (grouped (hitsOf fuel env sns (f0, [])))
       \<and> snd (Finish env (out f, tr)) = tr @ closing env (grouped (hitsOf fuel env sns (f0, [])))"
proof -
  let ?hs = "hitsOf fuel env sns (f0, [])"
  have "docInv env [] (out f0, [])"
    using init by (simp add: docInv_def grouped_def unfinished_def)
  from runFind_loop_doc [OF run init(1) this small]
  have json: "JSON (out f)" and inv: "docInv env ?hs (out f, tr)"
    and recs: "map snd ?hs = records env tr" by simp_all
  have fin: "snd (Finish env (out f, tr)) = tr @ closing env (grouped ?hs)"
  proof (cases "?hs = []")
    case True
    with inv json show ?thesis
      by (simp add: docInv_def Finish_def closing_def grouped_def)
  next
    case False
    from grouped_last [OF False] have g: "grouped ?hs \<noteq> []"
      "fst (last (grouped ?hs)) = fst (last ?hs)" by simp_all
    from inv False have s: "inuse (out f)" "oldsn (out f) = Some (fst (last ?hs))"
      "hits (out f) = of_nat (length (snd (last (grouped ?hs))))"
      by (simp_all add: docInv_def)
    with json g show ?thesis
      by (simp add: Finish_def closing_def groupClose_def fmt_group_end_def dq_def)
  qed
  from inv have "filter isPrintf tr = unfinished env (grouped ?hs)" by (simp add: docInv_def)
  with recs fin show ?thesis by simp
qed

text \<open>
  The snapshots 1 and 2 searched for \<^verbatim>\<open>*.txt\<close>: two records for snapshot 1 and one for
  snapshot 2. Before \<^verbatim>\<open>Finish\<close> the group of snapshot 1 is closed with the count 2
  and the group of snapshot 2 is open; \<^verbatim>\<open>Finish\<close> closes it with the count 1 and
  closes the array. Searched for \<^verbatim>\<open>*.go\<close> the snapshots give no record: nothing is
  written before \<^verbatim>\<open>Finish\<close>, which writes the empty array.
\<close>

theorem finish_closes_document_witness:
  \<open>runFind_loop 3 (env0 True [1, 2]) [1, 2]
      (\<lparr>pat = \<lparr>oldest = 0, newest = 0, pattern = ''*.txt'', ignoreCase = False\<rparr>,
        out = \<lparr>ListLong = False, JSON = True, inuse = False, newsn = None, oldsn = None, hits = 0\<rparr>,
        notfound = {}\<rparr>, [])
    = Some (None,
        \<lparr>pat = \<lparr>oldest = 0, newest = 0, pattern = ''*.txt'', ignoreCase = False\<rparr>,
         out = \<lparr>ListLong = False, JSON = True, inuse = True, newsn = Some 2, oldsn = Some 2, hits = 1\<rparr>,
         notfound = {}\<rparr>,
        [LoadTreeCall 1,
         MarshalCall (jsonValue (env0 True [1, 2]) ''/'' (fileNode ''a.txt'' t_2020_01_01)),
         Printf ''['' [],
         Printf ''{"matches":['' [],
         Printf (jsonText ''/a.txt'' ''-rw-r--r--'') [],
         LoadTreeCall 2,
         MarshalCall (jsonValue (env0 True [1, 2]) ''/sub'' (fileNode ''b.txt'' t_2021_06_01)),
         Printf '','' [],
         Printf (jsonText ''/sub/b.txt'' ''-rw-r--r--'') [],
         LoadTreeCall 2,
         MarshalCall (jsonValue (env0 True [1, 2]) ''/'' (fileNode ''b.txt'' t_2021_06_01)),
         Printf ''],"hits":%d,"snapshot":%q},'' [AInt 2, AID 101],
         Printf ''{"matches":['' [],
         Printf (jsonText ''/b.txt'' ''-rw-r--r--'') []])
   \<and> hitsOf 3 (env0 True [1, 2]) [1, 2]
      (\<lparr>pat = \<lparr>oldest = 0, newest = 0, pattern = ''*.txt'', ignoreCase = False\<rparr>,
        out = \<lparr>ListLong = False, JSON = True, inuse = False, newsn = None, oldsn = None, hits = 0\<rparr>,
        notfound = {}\<rparr>, [])
    = [(1, jsonText ''/a.txt'' ''-rw-r--r--''), (1, jsonText ''/sub/b.txt'' ''-rw-r--r--''),
       (2, jsonText ''/b.txt'' ''-rw-r--r--'')]
   \<and> snd (Finish (env0 True [1, 2])
        (\<lparr>ListLong = False, JSON = True, inuse = True, newsn = Some 2, oldsn = Some 2, hits = 1\<rparr>,
         [LoadTreeCall 1,
          MarshalCall (jsonValue (env0 True [1, 2]) ''/'' (fileNode ''a.txt'' t_2020_01_01)),
          Printf ''['' [],
          Printf ''{"matches":['' [],
          Printf (jsonText ''/a.txt'' ''-rw-r--r--'') [],
          LoadTreeCall 2,
          MarshalCall (jsonValue (env0 True [1, 2]) ''/sub'' (fileNode ''b.txt'' t_2021_06_01)),
          Printf '','' [],
          Printf (jsonText ''/sub/b.txt'' ''-rw-r--r--'') [],
          LoadTreeCall 2,
          MarshalCall (jsonValue (env0 True [1, 2]) ''/'' (fileNode ''b.txt'' t_2021_06_01)),
          Printf ''],"hits":%d,"snapshot":%q},'' [AInt 2, AID 101],
          Printf ''{"matches":['' [],
          Printf (jsonText ''/b.txt'' ''-rw-r--r--'') []]))
    = [LoadTreeCall 1,
       MarshalCall (jsonValue (env0 True [1, 2]) ''/'' (fileNode ''a.txt'' t_2020_01_01)),
       Printf ''['' [],
       Printf ''{"matches":['' [],
       Printf (jsonText ''/a.txt'' ''-rw-r--r--'') [],
       LoadTreeCall 2,
       MarshalCall (jsonValue (env0 True [1, 2]) ''/sub'' (fileNode ''b.txt'' t_2021_06_01)),
       Printf '','' [],
       Printf (jsonText ''/sub/b.txt'' ''-rw-r--r--'') [],
       LoadTreeCall 2,
       MarshalCall (jsonValue (env0 True [1, 2]) ''/'' (fileNode ''b.txt'' t_2021_06_01)),
       Printf ''],"hits":%d,"snapshot":%q},'' [AInt 2, AID 101],
       Printf ''{"matches":['' [],
       Printf (jsonText ''/b.txt'' ''-rw-r--r--'') [],
       Printf ''],"hits":%d,"snapshot":%q}'' [AInt 1, AID 102],
       Printf '']\<newline>'' []]
   \<and> runFind_loop 3 (env0 True [1, 2]) [1, 2]
      (\<lparr>pat = \<lparr>oldest = 0, newest = 0, pattern = ''*.go'', ignoreCase = False\<rparr>,
        out = \<lparr>ListLong = False, JSON = True, inuse = False, newsn = None, oldsn = None, hits = 0\<rparr>,
        notfound = {}\<rparr>, [])
    = Some (None,
        \<lparr>pat = \<lparr>oldest = 0, newest = 0, pattern = ''*.go'', ignoreCase = False\<rparr>,
         out = \<lparr>ListLong = False, JSON = True, inuse = False, newsn = Some 2, oldsn = None, hits = 0\<rparr>,
         notfound = {1, 2}\<rparr>,
        [LoadTreeCall 1, LoadTreeCall 2])
   \<and> records (env0 True [1, 2]) [LoadTreeCall 1, LoadTreeCall 2] = []
   \<and> filter isPrintf [LoadTreeCall 1, LoadTreeCall 2] = []
   \<and> snd (Finish (env0 True [1, 2])
        (\<lparr>ListLong = False, JSON = True, inuse = False, newsn = Some 2, oldsn = None, hits = 0\<rparr>,
         [LoadTreeCall 1, LoadTreeCall 2]))
    = [LoadTreeCall 1, LoadTreeCall 2, Printf ''[]\<newline>'' []]\<close>
proof -
  let ?env = "env0 True [1, 2]"
  let ?s = "\<lparr>ListLong = False, JSON = True, inuse = False, newsn = None, oldsn = None, hits = 0\<rparr>"
  let ?p = "\<lparr>oldest = 0, newest = 0, pattern = ''*.txt'', ignoreCase = False\<rparr>"
  let ?q = "\<lparr>oldest = 0, newest = 0, pattern = ''*.go'', ignoreCase = False\<rparr>"
  let ?a = "\<lparr>pat = ?p, out = ?s, notfound = {}\<rparr>"
  let ?b = "\<lparr>pat = ?q, out = ?s, notfound = {}\<rparr>"
  let ?t = "\<lparr>ListLong = False, JSON = True, inuse = True, newsn = Some 2, oldsn = Some 2, hits = 1\<rparr>"
  let ?u = "\<lparr>ListLong = False, JSON = True, inuse = False, newsn = Some 2, oldsn = None, hits = 0\<rparr>"
  let ?c = "\<lparr>pat = ?p, out = ?t, notfound = {}\<rparr>"
  let ?d = "\<lparr>pat = ?q, out = ?u, notfound = {1, 2}\<rparr>"
  let ?x = "jsonText ''/a.txt'' ''-rw-r--r--''"
  let ?y = "jsonText ''/sub/b.txt'' ''-rw-r--r--''"
  let ?z = "jsonText ''/b.txt'' ''-rw-r--r--''"
  let ?tr = \<open>[LoadTreeCall 1,
         MarshalCall (jsonValue ?env ''/'' (fileNode ''a.txt'' t_2020_01_01)),
         Printf ''['' [],
         Printf ''{"matches":['' [],
         Printf ?x [],
         LoadTreeCall 2,
         MarshalCall (jsonValue ?env ''/sub'' (fileNode ''b.txt'' t_2021_06_01)),
         Printf '','' [],
         Printf ?y [],
         LoadTreeCall 2,
         MarshalCall (jsonValue ?env ''/'' (fileNode ''b.txt'' t_2021_06_01)),
         Printf ''],"hits":%d,"snapshot":%q},'' [AInt 2, AID 101],
         Printf ''{"matches":['' [],
         Printf ?z []]\<close>
  let ?hs = "[(1, ?x), (1, ?y), (2, ?z)]"
  have ra: "runFind_loop 3 ?env [1, 2] (?a, []) = Some (None, (?c, ?tr))" by code_simp
  have rb: "runFind_loop 3 ?env [1, 2] (?b, []) = Some (None, (?d, [LoadTreeCall 1, LoadTreeCall 2]))"
    by code_simp
  have ha: "hitsOf 3 ?env [1, 2] (?a, []) = ?hs" by code_simp
  have hb: "hitsOf 3 ?env [1, 2] (?b, []) = []" by code_simp
  have cl: \<open>closing ?env (grouped ?hs)
              = [Printf ''],"hits":%d,"snapshot":%q}'' [AInt 1, AID 102], Printf '']\<newline>'' []]\<close>
    by code_simp
  have i: "JSON (out ?a)" "\<not> inuse (out ?a)" "oldsn (out ?a) = None"
    "JSON (out ?b)" "\<not> inuse (out ?b)" "oldsn (out ?b) = None" by simp_all
  have la: "length ?tr < 2 ^ 63" and lb: "length [LoadTreeCall 1, LoadTreeCall 2] < 2 ^ 63"
    by simp_all
  from finish_closes_document [OF ra i(1-3) la]
  have "snd (Finish ?env (out ?c, ?tr)) = ?tr @ closing ?env (grouped ?hs)"
    unfolding ha by blast
  then have ca: \<open>snd (Finish ?env (?t, ?tr))
       = ?tr @ [Printf ''],"hits":%d,"snapshot":%q}'' [AInt 1, AID 102], Printf '']\<newline>'' []]\<close>
    unfolding cl by simp
  from finish_closes_document [OF rb i(4-6) lb]
  have "records ?env [LoadTreeCall 1, LoadTreeCall 2] = map snd ([] :: (snptr \<times> string) list)"
    "filter isPrintf [LoadTreeCall 1, LoadTreeCall 2] = unfinished ?env (grouped [])"
    "snd (Finish ?env (out ?d, [LoadTreeCall 1, LoadTreeCall 2]))
       = [LoadTreeCall 1, LoadTreeCall 2] @ closing ?env (grouped [])"
    unfolding hb by simp_all
  then have cb: "records ?env [LoadTreeCall 1, LoadTreeCall 2] = []"
    "filter isPrintf [LoadTreeCall 1, LoadTreeCall 2] = []"
    "snd (Finish ?env (?u, [LoadTreeCall 1, LoadTreeCall 2]))
       = [LoadTreeCall 1, LoadTreeCall 2, Printf ''[]\<newline>'' []]"
    by (simp_all add: closing_def grouped_def unfinished_def)
  from ca have ca': \<open>snd (Finish ?env (?t, ?tr))
       = [LoadTreeCall 1,
         MarshalCall (jsonValue ?env ''/'' (fileNode ''a.txt'' t_2020_01_01)),
         Printf ''['' [],
         Printf ''{"matches":['' [],
         Printf ?x [],
         LoadTreeCall 2,
         MarshalCall (jsonValue ?env ''/sub'' (fileNode ''b.txt'' t_2021_06_01)),
         Printf '','' [],
         Printf ?y [],
         LoadTreeCall 2,
         MarshalCall (jsonValue ?env ''/'' (fileNode ''b.txt'' t_2021_06_01)),
         Printf ''],"hits":%d,"snapshot":%q},'' [AInt 2, AID 101],
         Printf ''{"matches":['' [],
         Printf ?z [],
         Printf ''],"hits":%d,"snapshot":%q}'' [AInt 1, AID 102],
         Printf '']\<newline>'' []]\<close>
    by simp
  from ra ha ca' rb cb show ?thesis by blast
qed

section \<open>An invalid pattern\<close>









section \<open>The negative cache and nested matches\<close>

text \<open>
  Claim C1 fails on the code: \<^verbatim>\<open>found\<close> is set only by the entries of the tree itself
  and the result of the recursive calls is not added to it, so a tree whose matches
  are all in nested subtrees enters the cache, and the cache then hides them.

  The snapshots 3 and 13 have the same root, tree 3, whose only entry is the
  directory \<^verbatim>\<open>sub\<close> with the file \<^verbatim>\<open>b.txt\<close>. The search of snapshot 3 for \<^verbatim>\<open>*.txt\<close>
  reports \<^verbatim>\<open>/sub/b.txt\<close> and puts tree 3 in the cache; the search of both snapshots
  reports nothing for snapshot 13.
\<close>

theorem cache_holds_tree_with_nested_match:
  "findInSnapshot 3 (env0 False [3, 13]) 3
      (finder0 False \<lparr>oldest = 0, newest = 0, pattern = ''*.txt'', ignoreCase = False\<rparr>, [])
    = Some (None,
        \<lparr>pat = \<lparr>oldest = 0, newest = 0, pattern = ''*.txt'', ignoreCase = False\<rparr>,
         out = \<lparr>ListLong = False, JSON = False, inuse = False, newsn = Some 3, oldsn = Some 3, hits = 0\<rparr>,
         notfound = {3}\<rparr>,
        [LoadTreeCall 3, LoadTreeCall 2,
         Verbosef ''Found matching entries in snapshot %s\<newline>'' [AID 103],
         FormatNodeCall ''/sub'' (fileNode ''b.txt'' t_2021_06_01) False,
         Printf ''/sub/b.txt\<newline>'' []])
   \<and> runFind 3 (env0 False [3, 13]) opts0 (gopts0 False) [''*.txt'']
    = Some (None,
        [LoadTreeCall 3, LoadTreeCall 2,
         Verbosef ''Found matching entries in snapshot %s\<newline>'' [AID 103],
         FormatNodeCall ''/sub'' (fileNode ''b.txt'' t_2021_06_01) False,
         Printf ''/sub/b.txt\<newline>'' []])"
  by code_simp

section \<open>Directories outside the time window\<close>

text \<open>
  Claim C5 fails on the code: the two \<^verbatim>\<open>continue\<close> statements of the time window also
  skip the recursion, so a directory whose name matches and whose modification time
  is outside the window is not searched.

  Tree 5 holds the directory \<^verbatim>\<open>build\<close>, modified on 2020-01-01, and below it the file
  \<^verbatim>\<open>build\<close>, modified on 2021-06-01. With the pattern \<^verbatim>\<open>build\<close> and the oldest bound
  2020-06-01 the file matches and is inside the window, but the directory is left
  with \<^verbatim>\<open>continue\<close>: its tree is never loaded and nothing is reported. Without the
  bound both entries are reported.
\<close>

theorem matching_directory_outside_window_not_searched:
  "runFind_pattern (env0 False [5]) (opts0\<lparr>Oldest := ''2020-06-01''\<rparr>) ''build''
     = Inr \<lparr>oldest = t_2020_06_01, newest = 0, pattern = ''build'', ignoreCase = False\<rparr>
   \<and> matchName (env0 False [5]) \<lparr>oldest = t_2020_06_01, newest = 0, pattern = ''build'', ignoreCase = False\<rparr>
        (fileNode ''build'' t_2021_06_01) = Inr True
   \<and> \<not> timeRejected \<lparr>oldest = t_2020_06_01, newest = 0, pattern = ''build'', ignoreCase = False\<rparr>
        (fileNode ''build'' t_2021_06_01)
   \<and> runFind 3 (env0 False [5]) (opts0\<lparr>Oldest := ''2020-06-01''\<rparr>) (gopts0 False) [''build'']
     = Some (None, [LoadTreeCall 5])
   \<and> runFind 3 (env0 False [5]) opts0 (gopts0 False) [''build'']
     = Some (None,
         [LoadTreeCall 5,
          Verbosef ''Found matching entries in snapshot %s\<newline>'' [AID 105],
          FormatNodeCall ''/'' (dirNode ''build'' t_2020_01_01 6) False,
          Printf ''/build\<newline>'' [],
          LoadTreeCall 6,
          FormatNodeCall ''/build'' (fileNode ''build'' t_2021_06_01) False,
          Printf ''/build/build\<newline>'' []])"
  by code_simp

section \<open>Shared trees\<close>

text \<open>
  Claim C2 as stated fails: the cache is negative only, so a shared tree with a
  matching entry is loaded by each search that reaches it.

  The snapshots 2 and 12 have the same root, tree 2, which holds \<^verbatim>\<open>b.txt\<close>. The
  search for \<^verbatim>\<open>*.txt\<close> reports the file for both snapshots and loads tree 2 twice.
\<close>

theorem shared_tree_with_match_loaded_twice:
  "runFind 3 (env0 False [2, 12]) opts0 (gopts0 False) [''*.txt'']
    = Some (None,
        [LoadTreeCall 2,
         Verbosef ''Found matching entries in snapshot %s\<newline>'' [AID 102],
         FormatNodeCall ''/'' (fileNode ''b.txt'' t_2021_06_01) False,
         Printf ''/b.txt\<newline>'' [],
         LoadTreeCall 2,
         Verbosef ''\<newline>'' [],
         Verbosef ''Found matching entries in snapshot %s\<newline>'' [AID 112],
         FormatNodeCall ''/'' (fileNode ''b.txt'' t_2021_06_01) False,
         Printf ''/b.txt\<newline>'' []])
   \<and> count_list
        [LoadTreeCall 2,
         Verbosef ''Found matching entries in snapshot %s\<newline>'' [AID 102],
         FormatNodeCall ''/'' (fileNode ''b.txt'' t_2021_06_01) False,
         Printf ''/b.txt\<newline>'' [],
         LoadTreeCall 2,
         Verbosef ''\<newline>'' [],
         Verbosef ''Found matching entries in snapshot %s\<newline>'' [AID 112],
         FormatNodeCall ''/'' (fileNode ''b.txt'' t_2021_06_01) False,
         Printf ''/b.txt\<newline>'' []]
        (LoadTreeCall 2) = 2"
  by code_simp

lemma onceInv_onceErr: "onceInv env p A f tr \<Longrightarrow> onceErr env p f tr"
  by (simp add: onceInv_def onceErr_def)

lemma onceInv_out: "onceInv env p A (f\<lparr>out := s\<rparr>) tr = onceInv env p A f tr"
  by (simp add: onceInv_def)

lemma Print_loads:
  "Print env prefix node (s, tr) = (perr, s', tr') \<Longrightarrow> loads T tr' = loads T tr"
  by (auto simp: loads_def Print_def PrintJSON_def PrintNormal_def Let_def
      split: if_splits sum.splits option.splits prod.splits)

lemma onceRel_refl: "onceRel env p A t None x x"
  by (simp add: onceRel_def oncePost_def)

lemma onceRel_err: "onceRel env p A t None a b \<Longrightarrow> onceRel env p A t (Some e) a b"
  using onceInv_onceErr by (auto simp: onceRel_def oncePost_def)

lemma onceRel_trans: "onceRel env p A t None a b \<Longrightarrow> onceRel env p A t r b c \<Longrightarrow> onceRel env p A t r a c"
  by (auto simp: onceRel_def oncePost_def)

lemma onceRel_Print:
  assumes tree: "LoadTree env t = Inr tree" and mem: "node \<in> set (Nodes tree)"
    and m: "matchName env (pat f) node = Inr True" "\<not> timeRejected (pat f) node"
    and pr: "Print env prefix node (out f, tr) = (perr, s, tr')"
  shows "onceRel env p A t perr (found, (f, tr)) (True, (f\<lparr>out := s\<rparr>, tr'))"
proof -
  have l: "\<And>T. loads T tr' = loads T tr" using Print_loads [OF pr] .
  have d: "pat f = p \<Longrightarrow> directMatch env p t"
    using tree mem m by (auto simp: directMatch_def accepted_def list_ex_iff)
  show ?thesis
    unfolding onceRel_def
    using d l by (auto simp: oncePost_def onceInv_def onceErr_def)
qed

lemma findInTree_pat:
  assumes "findInTree fuel env t prefix st = Some (r, st')"
  shows "pat (fst st') = pat (fst st)"
proof (rule findInTree_rel [where R = "\<lambda>st st'. pat (fst st') = pat (fst st)" and Ip = "\<lambda>p. True",
      OF _ _ _ _ _ _ _ assms])
qed simp_all

lemma findInTree_loop_keeps:
  assumes rec: "\<And>sub p st r st'. rec sub p st = Some (r, st') \<Longrightarrow> pat (fst st') = pat (fst st)"
    and run: "findInTree_loop rec env prefix ns found st = Some (r, found', st')"
  shows "pat (fst st') = pat (fst st) \<and> (found \<longrightarrow> found')"
proof -
  have "keepRel r (found, st) (found', st')"
  proof (rule findInTree_loop_rel [where R = keepRel, OF _ _ _ _ _ run])
    show "\<And>node sub found st r st'. node \<in> set ns \<Longrightarrow> Subtree node = Some sub \<Longrightarrow>
        rec sub (Join env prefix (Name node)) st = Some (r, st') \<Longrightarrow> keepRel r (found, st) (found, st')"
      using rec by (simp add: keepRel_def)
  qed (simp_all add: keepRel_def)
  then show ?thesis by (simp add: keepRel_def)
qed

lemma findInTree_loop_not_accepted:
  assumes "\<not> accepted env (pat f) node"
  shows "findInTree_loop rec env prefix (node # nodes) found (f, tr) =
          (case matchName env (pat f) node of
             Inl err \<Rightarrow> Some (Some err, found, (f, tr))
           | Inr m \<Rightarrow>
              if m then findInTree_loop rec env prefix nodes found (f, tr)
              else findInTree_dir rec env prefix node (findInTree_loop rec env prefix nodes) found (f, tr))"
  using assms
  by (auto simp: accepted_def findInTree_dir_def split: sum.splits prod.splits option.splits)

lemma findInTree_dir_None:
  assumes "findInTree_dir rec env prefix node k found st = Some (None, found', st')"
  shows "\<exists>st2. k found st2 = Some (None, found', st')
            \<and> (st2 = st \<or> (\<exists>sub. rec sub (Join env prefix (Name node)) st = Some (None, st2)))"
proof (cases "Type node = ''dir''")
  case False
  with assms have "k found st = Some (None, found', st')" by (simp add: findInTree_dir_def)
  then show ?thesis by blast
next
  case True
  with assms obtain sub where sub: "Subtree node = Some sub"
    by (cases "Subtree node") (simp_all add: findInTree_dir_def)
  with assms True obtain r2 st2 where r2: "rec sub (Join env prefix (Name node)) st = Some (r2, st2)"
    by (cases "rec sub (Join env prefix (Name node)) st") (auto simp: findInTree_dir_def)
  with assms True sub have "r2 = None" "k found st2 = Some (None, found', st')"
    by (cases r2; simp add: findInTree_dir_def)+
  with r2 show ?thesis by blast
qed

text \<open>When the loop ends without error and without \<^verbatim>\<open>found\<close>, no entry was accepted.\<close>

lemma findInTree_loop_not_found:
  assumes rec: "\<And>sub p st r st'. rec sub p st = Some (r, st') \<Longrightarrow> pat (fst st') = pat (fst st)"
  shows "findInTree_loop rec env prefix ns found (f, tr) = Some (None, False, st')
          \<Longrightarrow> \<forall>node \<in> set ns. \<not> accepted env (pat f) node"
proof (induction ns arbitrary: found f tr)
  case Nil
  then show ?case by simp
next
  case (Cons node ns)
  let ?k = "findInTree_loop rec env prefix ns"
  have mono: "found'" if "?k True st = Some (r, found', st'')" for st r found' st''
    using findInTree_loop_keeps [where rec = rec, OF _ that] rec by blast
  have nacc: "\<not> accepted env (pat f) node"
  proof
    assume acc: "accepted env (pat f) node"
    obtain perr s tr1 where pr: "Print env prefix node (out f, tr) = (perr, s, tr1)"
      by (cases "Print env prefix node (out f, tr)")
    from acc have "findInTree_loop rec env prefix (node # ns) found (f, tr) =
          (case Print env prefix node (out f, tr) of
             (Some perr, s, tr') \<Rightarrow> Some (Some perr, True, (f\<lparr>out := s\<rparr>, tr'))
           | (None, s, tr') \<Rightarrow> findInTree_dir rec env prefix node ?k True (f\<lparr>out := s\<rparr>, tr'))"
      by (intro findInTree_loop_accepted) (simp_all add: accepted_def)
    with Cons.prems pr have d: "perr = None"
      "findInTree_dir rec env prefix node ?k True (f\<lparr>out := s\<rparr>, tr1) = Some (None, False, st')"
      by (cases perr; simp)+
    from findInTree_dir_None [OF d(2)] obtain st2 where "?k True st2 = Some (None, False, st')"
      by blast
    from mono [OF this] show False .
  qed
  have rest: "\<exists>f2 tr2. ?k found (f2, tr2) = Some (None, False, st') \<and> pat f2 = pat f"
  proof (cases "matchName env (pat f) node")
    case (Inl e)
    with Cons.prems findInTree_loop_not_accepted [OF nacc, of rec prefix ns found tr]
    show ?thesis by simp
  next
    case (Inr m)
    show ?thesis
    proof (cases m)
      case True
      with Inr Cons.prems findInTree_loop_not_accepted [OF nacc, of rec prefix ns found tr]
      show ?thesis by auto
    next
      case False
      with Inr Cons.prems findInTree_loop_not_accepted [OF nacc, of rec prefix ns found tr]
      have "findInTree_dir rec env prefix node ?k found (f, tr) = Some (None, False, st')" by simp
      from findInTree_dir_None [OF this] obtain st2 where
        k: "?k found st2 = Some (None, False, st')"
        and st2: "st2 = (f, tr) \<or> (\<exists>sub. rec sub (Join env prefix (Name node)) (f, tr) = Some (None, st2))"
        by blast
      from st2 rec have "pat (fst st2) = pat f" by fastforce
      with k show ?thesis by (cases st2) auto
    qed
  qed
  then obtain f2 tr2 where k: "?k found (f2, tr2) = Some (None, False, st')" and p: "pat f2 = pat f"
    by blast
  from Cons.IH [OF k] p nacc show ?case by simp
qed

lemma findInTree_once:
  assumes desc: "descending env rank"
  shows "findInTree fuel env t prefix (f, tr) = Some (r, (f', tr')) \<Longrightarrow> \<forall>a \<in> A. rank t < rank a
    \<Longrightarrow> onceInv env p A f tr
    \<Longrightarrow> oncePost env p A r f' tr'"
proof (induction fuel arbitrary: t prefix f tr r f' tr' A)
  case 0
  then show ?case by simp
next
  case (Suc fuel)
  note inv = Suc.prems(3)
  show ?case
  proof (cases "t \<in> notfound f")
    case True
    with Suc.prems(1) inv show ?thesis by (auto simp: oncePost_def)
  next
    case False
    have tA: "t \<notin> A" using Suc.prems(2) by auto
    let ?tr1 = "tr @ [LoadTreeCall t]"
    let ?A = "insert t A"
    have inv1: "onceInv env p ?A f ?tr1"
      using inv False tA unfolding onceInv_def loads_def
      by (auto split: if_splits)
    show ?thesis
    proof (cases "LoadTree env t")
      case (Inl err)
      with Suc.prems(1) False onceInv_onceErr [OF inv1] show ?thesis by (auto simp: oncePost_def)
    next
      case (Inr tree)
      with Suc.prems(1) False obtain r1 found1 f1 tr1 where
        loop: "findInTree_loop (\<lambda>t p s. findInTree fuel env t p s) env prefix (Nodes tree) False
                    (f, ?tr1) = Some (r1, found1, (f1, tr1))"
        by (auto split: option.splits)
      have "onceRel env p ?A t r1 (False, (f, ?tr1)) (found1, (f1, tr1))"
      proof (rule findInTree_loop_rel [where R = "onceRel env p ?A t", OF _ _ _ _ _ loop])
        show "\<And>x. onceRel env p ?A t None x x" by (rule onceRel_refl)
        show "\<And>a b e. onceRel env p ?A t None a b \<Longrightarrow> onceRel env p ?A t (Some e) a b"
          by (rule onceRel_err)
        show "\<And>a b c r. onceRel env p ?A t None a b \<Longrightarrow> onceRel env p ?A t r b c
                \<Longrightarrow> onceRel env p ?A t r a c"
          by (rule onceRel_trans)
        show "\<And>node found f tr perr s tr'. node \<in> set (Nodes tree) \<Longrightarrow>
          matchName env (pat f) node = Inr True \<Longrightarrow> \<not> timeRejected (pat f) node \<Longrightarrow>
          Print env prefix node (out f, tr) = (perr, s, tr') \<Longrightarrow>
          onceRel env p ?A t perr (found, (f, tr)) (True, (f\<lparr>out := s\<rparr>, tr'))"
          using onceRel_Print [OF Inr] .
        show "\<And>node sub found st r st'. node \<in> set (Nodes tree) \<Longrightarrow> Subtree node = Some sub \<Longrightarrow>
          findInTree fuel env sub (Join env prefix (Name node)) st = Some (r, st') \<Longrightarrow>
          onceRel env p ?A t r (found, st) (found, st')"
        proof -
          fix node sub found st r st'
          assume mem: "node \<in> set (Nodes tree)" and sub: "Subtree node = Some sub"
            and run: "findInTree fuel env sub (Join env prefix (Name node)) st = Some (r, st')"
          have rk: "rank sub < rank t" using desc Inr mem sub by (auto simp: descending_def)
          then have below: "\<forall>a \<in> ?A. rank sub < rank a" using Suc.prems(2) by auto
          obtain g u where st: "st = (g, u)" by (cases st)
          obtain g' u' where st': "st' = (g', u')" by (cases st')
          from Suc.IH [OF run [unfolded st st'] below]
          show "onceRel env p ?A t r (found, st) (found, st')"
            by (simp add: onceRel_def st st')
        qed
      qed
      with inv1 have post: "found1 \<longrightarrow> directMatch env p t"
        "oncePost env p ?A r1 f1 tr1"
        by (simp_all add: onceRel_def)
      show ?thesis
      proof (cases r1)
        case (Some e)
        with Suc.prems(1) False Inr loop post show ?thesis by (auto simp: oncePost_def)
      next
        case None
        with post have i1: "onceInv env p ?A f1 tr1" by (simp add: oncePost_def)
        from None Suc.prems(1) False Inr loop
        have res: "r = None" "tr' = tr1"
          "f' = (if \<not> found1 then f1\<lparr>notfound := insert t (notfound f1)\<rparr> else f1)"
          by simp_all
        have "onceInv env p A f' tr1"
        proof (cases found1)
          case False
          have nf: "findInTree_loop (\<lambda>t p s. findInTree fuel env t p s) env prefix (Nodes tree) False
                    (f, ?tr1) = Some (None, False, (f1, tr1))"
            using loop None False by simp
          have "\<forall>node \<in> set (Nodes tree). \<not> accepted env (pat f) node"
          proof (rule findInTree_loop_not_found [OF _ nf])
            show "pat (fst st') = pat (fst st)" if "findInTree fuel env sub p st = Some (r, st')"
              for sub p st r st'
              using findInTree_pat [OF that] .
          qed
          moreover have "pat f = p" using inv by (simp add: onceInv_def)
          ultimately have "\<not> directMatch env p t" using Inr by (simp add: directMatch_def list_ex_iff)
          with False res i1 show ?thesis by (auto simp: onceInv_def)
        next
          case True
          with post have "directMatch env p t" by simp
          with True res i1 show ?thesis
            unfolding onceInv_def by (auto split: if_splits)
        qed
        with res show ?thesis by (simp add: oncePost_def)
      qed
    qed
  qed
qed

lemma runFind_loop_once:
  assumes desc: "descending env rank"
  shows "runFind_loop fuel env sns (f, tr) = Some (r, (f', tr')) \<Longrightarrow> onceInv env p {} f tr
    \<Longrightarrow> oncePost env p {} r f' tr'"
proof (induction sns arbitrary: f tr)
  case Nil
  then show ?case by (simp add: oncePost_def)
next
  case (Cons sn sns)
  from Cons.prems(1) obtain r1 f1 tr1 where
    s1: "findInSnapshot fuel env sn (f, tr) = Some (r1, (f1, tr1))"
    by (auto split: option.splits)
  let ?f = "f\<lparr>out := (out f)\<lparr>newsn := Some sn\<rparr>\<rparr>"
  have inv: "onceInv env p {} ?f tr" using Cons.prems(2) by (simp add: onceInv_out)
  show ?case
  proof (cases "Tree (deref env sn)")
    case None
    with s1 Cons.prems(1) onceInv_onceErr [OF inv] show ?thesis
      by (auto simp: findInSnapshot_def oncePost_def)
  next
    case (Some root)
    with s1 have ft: "findInTree fuel env root [Separator env] (?f, tr) = Some (r1, (f1, tr1))"
      by (simp add: findInSnapshot_def)
    from findInTree_once [OF desc ft _ inv]
    have post: "oncePost env p {} r1 f1 tr1" by simp
    show ?thesis
    proof (cases r1)
      case (Some e)
      with Cons.prems(1) s1 post show ?thesis by (auto simp: oncePost_def)
    next
      case None
      with Cons.prems(1) s1 have "runFind_loop fuel env sns (f1, tr1) = Some (r, (f', tr'))" by simp
      from Cons.IH [OF this] post None show ?thesis by (simp add: oncePost_def)
    qed
  qed
qed

text \<open>
  What the code does with the cache, over the whole run: a tree without a match among
  its own entries is loaded at most once, and no tree in the cache has a match among
  its own entries. The first part says more than the specification asks for, since
  it also bounds the loads of the trees whose matches are all in nested subtrees.
\<close>

lemma runFind_loop_cache:
  assumes desc: "descending env rank"
    and run: "runFind_loop fuel env sns (f0, []) = Some (r, (f, tr))"
    and empty: "notfound f0 = {}"
  shows "(\<forall>T. \<not> directMatch env (pat f0) T \<longrightarrow> count_list tr (LoadTreeCall T) \<le> 1)
       \<and> (\<forall>T \<in> notfound f. \<not> directMatch env (pat f0) T)"
proof -
  have "onceInv env (pat f0) {} f0 []" using empty by (simp add: onceInv_def loads_def)
  from runFind_loop_once [OF desc run this] have post: "oncePost env (pat f0) {} r f tr" .
  then have "onceErr env (pat f0) f tr"
    by (cases "r = None") (auto simp: oncePost_def intro: onceInv_onceErr)
  then show ?thesis by (simp add: onceErr_def loads_def)
qed

lemma matchFree_direct: "matchFree env p t \<Longrightarrow> \<not> directMatch env p t"
  using reaches.here by (auto simp: matchFree_def)

text \<open>
  Claim C2, amended. In a repository whose trees form a DAG, let the snapshots be
  searched in sequence, under fixed criteria and from an empty cache. Then a tree
  free of matches (no entry of the tree or of a tree below it is accepted), shared
  between snapshots or not, is loaded at most once in the whole run, however many
  snapshots reach it; and the cache is negative only: whether the run ends with an
  error or not, it holds no tree with a match among its own entries.
\<close>

theorem match_free_tree_loaded_once:
  assumes desc: "descending env rank"
    and run: "runFind_loop fuel env sns (f0, []) = Some (r, (f, tr))"
    and empty: "notfound f0 = {}"
  shows "(\<forall>T. matchFree env (pat f0) T \<longrightarrow> count_list tr (LoadTreeCall T) \<le> 1)
       \<and> (\<forall>T \<in> notfound f. \<not> directMatch env (pat f0) T)"
  using runFind_loop_cache [OF desc run empty] matchFree_direct by blast

lemma env0_descending: "descending (env0 json sns) repo0_rank"
  by (auto simp: descending_def env0_def repo0_def repo0_rank_def fileNode_def dirNode_def
      split: if_splits)

lemma repo0_below_2: "reaches (env0 json sns) 2 u \<Longrightarrow> u = 2"
  by (erule reaches.cases) (auto simp: env0_def repo0_def fileNode_def)

text \<open>
  The snapshots 1 and 11 have the same root, tree 1, with \<^verbatim>\<open>a.txt\<close> and the directory
  \<^verbatim>\<open>sub\<close>, tree 2, which holds only \<^verbatim>\<open>b.txt\<close>. With the pattern \<^verbatim>\<open>a*\<close> tree 2 is free of
  matches: it is loaded by the first search and skipped by the second, while tree 1,
  which holds the match, is loaded by both, and \<^verbatim>\<open>/a.txt\<close> is reported for both
  snapshots.
\<close>

theorem match_free_tree_loaded_once_witness:
  "descending (env0 False [1, 11]) repo0_rank
   \<and> runFind_loop 3 (env0 False [1, 11]) [1, 11]
        (\<lparr>pat = \<lparr>oldest = 0, newest = 0, pattern = ''a*'', ignoreCase = False\<rparr>,
          out = \<lparr>ListLong = False, JSON = False, inuse = False, newsn = None, oldsn = None, hits = 0\<rparr>,
          notfound = {}\<rparr>, [])
      = Some (None,
          \<lparr>pat = \<lparr>oldest = 0, newest = 0, pattern = ''a*'', ignoreCase = False\<rparr>,
           out = \<lparr>ListLong = False, JSON = False, inuse = False, newsn = Some 11, oldsn = Some 11, hits = 0\<rparr>,
           notfound = {2}\<rparr>,
          [LoadTreeCall 1,
           Verbosef ''Found matching entries in snapshot %s\<newline>'' [AID 101],
           FormatNodeCall ''/'' (fileNode ''a.txt'' t_2020_01_01) False,
           Printf ''/a.txt\<newline>'' [],
           LoadTreeCall 2,
           LoadTreeCall 1,
           Verbosef ''\<newline>'' [],
           Verbosef ''Found matching entries in snapshot %s\<newline>'' [AID 111],
           FormatNodeCall ''/'' (fileNode ''a.txt'' t_2020_01_01) False,
           Printf ''/a.txt\<newline>'' []])
   \<and> matchFree (env0 False [1, 11]) \<lparr>oldest = 0, newest = 0, pattern = ''a*'', ignoreCase = False\<rparr> 2
   \<and> count_list
          [LoadTreeCall 1,
           Verbosef ''Found matching entries in snapshot %s\<newline>'' [AID 101],
           FormatNodeCall ''/'' (fileNode ''a.txt'' t_2020_01_01) False,
           Printf ''/a.txt\<newline>'' [],
           LoadTreeCall 2,
           LoadTreeCall 1,
           Verbosef ''\<newline>'' [],
           Verbosef ''Found matching entries in snapshot %s\<newline>'' [AID 111],
           FormatNodeCall ''/'' (fileNode ''a.txt'' t_2020_01_01) False,
           Printf ''/a.txt\<newline>'' []]
          (LoadTreeCall 2) \<le> 1
   \<and> \<not> directMatch (env0 False [1, 11]) \<lparr>oldest = 0, newest = 0, pattern = ''a*'', ignoreCase = False\<rparr> 2"
proof -
  let ?env = "env0 False [1, 11]"
  let ?p = "\<lparr>oldest = 0, newest = 0, pattern = ''a*'', ignoreCase = False\<rparr>"
  let ?g = "\<lparr>pat = ?p,
          out = \<lparr>ListLong = False, JSON = False, inuse = False, newsn = None, oldsn = None, hits = 0\<rparr>,
          notfound = {}\<rparr>"
  let ?h = "\<lparr>pat = ?p,
           out = \<lparr>ListLong = False, JSON = False, inuse = False, newsn = Some 11, oldsn = Some 11, hits = 0\<rparr>,
           notfound = {2}\<rparr>"
  let ?tr = "[LoadTreeCall 1,
           Verbosef ''Found matching entries in snapshot %s\<newline>'' [AID 101],
           FormatNodeCall ''/'' (fileNode ''a.txt'' t_2020_01_01) False,
           Printf ''/a.txt\<newline>'' [],
           LoadTreeCall 2,
           LoadTreeCall 1,
           Verbosef ''\<newline>'' [],
           Verbosef ''Found matching entries in snapshot %s\<newline>'' [AID 111],
           FormatNodeCall ''/'' (fileNode ''a.txt'' t_2020_01_01) False,
           Printf ''/a.txt\<newline>'' []]"
  have d: "descending ?env repo0_rank" by (rule env0_descending)
  have r: "runFind_loop 3 ?env [1, 11] (?g, []) = Some (None, (?h, ?tr))" by code_simp
  have e: "notfound ?g = {}" by simp
  have n: "\<not> directMatch ?env ?p 2" by code_simp
  have m: "matchFree ?env ?p 2"
    unfolding matchFree_def using repo0_below_2 n by blast
  from match_free_tree_loaded_once [OF d r e]
  have c: "(\<forall>T. matchFree ?env ?p T \<longrightarrow> count_list ?tr (LoadTreeCall T) \<le> 1)
       \<and> (\<forall>T \<in> notfound ?h. \<not> directMatch ?env ?p T)"
    by simp
  with m have "count_list ?tr (LoadTreeCall 2) \<le> 1" by blast
  with d r m n show ?thesis by blast
qed

section \<open>The search returns\<close>

lemma findInTree_loop_returns:
  assumes "\<And>node sub p st. node \<in> set ns \<Longrightarrow> Subtree node = Some sub \<Longrightarrow> \<exists>res. rec sub p st = Some res"
  shows "\<exists>res. findInTree_loop rec env prefix ns found st = Some res"
  using assms
proof (induction ns arbitrary: found st)
  case Nil
  then show ?case by simp
next
  case (Cons node ns)
  have IH: "\<exists>res. findInTree_loop rec env prefix ns found st = Some res" for found st
  proof (rule Cons.IH)
    fix n sub p st
    assume "n \<in> set ns" "Subtree n = Some sub"
    then show "\<exists>res. rec sub p st = Some res" using Cons.prems [of n sub p st] by simp
  qed
  have R: "\<exists>res. rec sub p st = Some res" if "Subtree node = Some sub" for sub p st
    using Cons.prems [of node sub p st] that by simp
  obtain f tr where st: "st = (f, tr)" by (cases st)
  show ?case
  proof (cases "matchName env (pat f) node")
    case (Inl e)
    then show ?thesis by (simp add: st)
  next
    case (Inr m)
    show ?thesis
    proof (cases "m \<and> timeRejected (pat f) node")
      case True
      with Inr IH show ?thesis by (simp add: st)
    next
      case False
      define res1 where "res1 = (if m then (case Print env prefix node (out f, tr) of
                                (perr, s, tr') \<Rightarrow> (perr, True, (f\<lparr>out := s\<rparr>, tr')))
                   else (None, found, st))"
      obtain perr found1 st1 where res1: "res1 = (perr, found1, st1)" by (cases res1)
      have eq: "findInTree_loop rec env prefix (node # ns) found st =
            (case res1 of
               (Some perr, found, st) \<Rightarrow> Some (Some perr, found, st)
             | (None, found, st) \<Rightarrow>
                if Type node = ''dir'' then
                  (case Subtree node of
                     None \<Rightarrow> Some (Some (Panic ''nil pointer dereference''), found, st)
                   | Some sub \<Rightarrow>
                      (case rec sub (Join env prefix (Name node)) st of
                         None \<Rightarrow> None
                       | Some (Some err, st) \<Rightarrow> Some (Some err, found, st)
                       | Some (None, st) \<Rightarrow> findInTree_loop rec env prefix ns found st))
                else findInTree_loop rec env prefix ns found st)"
        using False Inr unfolding st res1_def by auto
      show ?thesis
      proof (cases perr)
        case (Some e)
        with eq res1 show ?thesis by simp
      next
        case None
        show ?thesis
        proof (cases "Type node = ''dir'' \<and> Subtree node \<noteq> None")
          case False
          with eq res1 None IH show ?thesis by (auto split: option.splits)
        next
          case True
          then obtain sub where sub: "Subtree node = Some sub" by auto
          from R [OF sub] obtain r2 st2 where "rec sub (Join env prefix (Name node)) st1 = Some (r2, st2)"
            by fastforce
          with eq res1 None True sub IH show ?thesis by (cases r2) auto
        qed
      qed
    qed
  qed
qed

text \<open>
  In a repository whose trees form a DAG the search of a tree returns, given fuel
  above the rank of the tree.
\<close>

lemma findInTree_returns:
  assumes desc: "descending env rank"
  shows "rank t < fuel \<Longrightarrow> \<exists>res. findInTree fuel env t prefix st = Some res"
proof (induction fuel arbitrary: t prefix st)
  case 0
  then show ?case by simp
next
  case (Suc fuel)
  obtain f tr where st: "st = (f, tr)" by (cases st)
  show ?case
  proof (cases "LoadTree env t")
    case (Inl err)
    then show ?thesis by (simp add: st)
  next
    case (Inr tree)
    have "\<exists>res. findInTree_loop (\<lambda>t p s. findInTree fuel env t p s) env prefix (Nodes tree) False
              (f, tr @ [LoadTreeCall t]) = Some res"
    proof (rule findInTree_loop_returns)
      fix node sub p st
      assume "node \<in> set (Nodes tree)" "Subtree node = Some sub"
      with desc Inr have "rank sub < rank t" by (auto simp: descending_def)
      with Suc.prems have "rank sub < fuel" by simp
      from Suc.IH [OF this] show "\<exists>res. findInTree fuel env sub p st = Some res" .
    qed
    then obtain r1 found1 f1 tr1 where
      "findInTree_loop (\<lambda>t p s. findInTree fuel env t p s) env prefix (Nodes tree) False
              (f, tr @ [LoadTreeCall t]) = Some (r1, found1, (f1, tr1))"
      by fastforce
    with Inr show ?thesis by (cases r1) (simp_all add: st)
  qed
qed

lemma runFind_loop_returns:
  assumes desc: "descending env rank"
    and fuel: "\<forall>sn \<in> set sns. \<forall>root. Tree (deref env sn) = Some root \<longrightarrow> rank root < fuel"
  shows "\<exists>res. runFind_loop fuel env sns st = Some res"
  using fuel
proof (induction sns arbitrary: st)
  case Nil
  then show ?case by simp
next
  case (Cons sn sns)
  obtain f tr where st: "st = (f, tr)" by (cases st)
  have "\<exists>res. findInSnapshot fuel env sn st = Some res"
  proof (cases "Tree (deref env sn)")
    case None
    then show ?thesis by (simp add: findInSnapshot_def st)
  next
    case (Some root)
    with Cons.prems have "rank root < fuel" by simp
    from findInTree_returns [OF desc this] Some show ?thesis
      by (simp add: findInSnapshot_def st)
  qed
  then obtain r1 st1 where "findInSnapshot fuel env sn st = Some (r1, st1)" by fastforce
  moreover have "\<exists>res. runFind_loop fuel env sns st1 = Some res"
    by (rule Cons.IH) (use Cons.prems in simp)
  ultimately show ?case by (cases r1) auto
qed

lemma runFind_returns:
  assumes desc: "descending env rank"
    and fuel: "\<forall>sn \<in> set (FindFilteredSnapshots env (Host opts) (Tags opts) (Paths opts) (Snapshots opts)).
                 \<forall>root. Tree (deref env sn) = Some root \<longrightarrow> rank root < fuel"
  shows "\<exists>res. runFind fuel env opts gopts args = Some res"
proof (cases "length args = 1")
  case False
  then show ?thesis by (simp add: runFind_def)
next
  case True
  show ?thesis
  proof (cases "runFind_pattern env opts (hd args)")
    case (Inl err)
    with True show ?thesis by (simp add: runFind_def)
  next
    case (Inr p)
    let ?f = "\<lparr>pat = p,
            out = \<lparr>ListLong = FindOptions.ListLong opts,
                   JSON = GlobalOptions.JSON (globalOptions env),
                   inuse = False, newsn = None, oldsn = None, hits = 0\<rparr>,
            notfound = {}\<rparr>"
    from runFind_loop_returns [OF desc fuel, of "(?f, [])"] obtain r1 f1 tr1 where
      "runFind_loop fuel env
          (FindFilteredSnapshots env (Host opts) (Tags opts) (Paths opts) (Snapshots opts)) (?f, [])
          = Some (r1, (f1, tr1))"
      by fastforce
    with True Inr show ?thesis
      by (cases r1) (simp_all add: runFind_def Let_def split: option.splits)
  qed
qed

end
